theory Spec2Isabelle
  imports Main
begin

section \<open>Values, dictionaries and exceptions\<close>

text \<open>
  The validator works on what \<^verbatim>\<open>json.load\<close> returns: \<^verbatim>\<open>None\<close>, booleans,
  integers, strings, lists and dictionaries with string keys. A Python string is a
  sequence of code points; here a \<^typ>\<open>char\<close> stands for one code point in the range
  U+0000 to U+00FF, so \<open>length\<close> counts code points as \<^verbatim>\<open>len\<close> does. Strings with
  code points above U+00FF and JSON numbers with a fraction or an exponent (Python
  floats) are outside the model. A dictionary is the list of its entries in insertion
  order; a dictionary built by \<^verbatim>\<open>json.load\<close> has pairwise distinct keys.
\<close>

datatype pyval =
    PyNone
  | PyBool bool
  | PyInt int
  | PyStr string
  | PyList "pyval list"
  | PyDict "(string \<times> pyval) list"

type_synonym pydict = "(string \<times> pyval) list"

datatype error = NoIDError | KeyError | TypeError | AttributeError

text \<open>\<^verbatim>\<open>k in d.keys()\<close>, \<^verbatim>\<open>d[k]\<close> (with \<open>None\<close> for the \<^verbatim>\<open>KeyError\<close>) and \<^verbatim>\<open>d[k] = v\<close>.\<close>

definition dict_contains :: "(string \<times> 'v) list \<Rightarrow> string \<Rightarrow> bool" where
  "dict_contains d k = (k \<in> set (map fst d))"

definition dict_get :: "(string \<times> 'v) list \<Rightarrow> string \<Rightarrow> 'v option" where
  "dict_get d k = map_of d k"

fun dict_set :: "(string \<times> 'v) list \<Rightarrow> string \<Rightarrow> 'v \<Rightarrow> (string \<times> 'v) list" where
  "dict_set [] k v = [(k, v)]"
| "dict_set ((k', v') # d) k v =
     (if k' = k then (k', v) # d else (k', v') # dict_set d k v)"

text \<open>\<^verbatim>\<open>len(v)\<close>: defined for strings, lists and dictionaries, a \<^verbatim>\<open>TypeError\<close> otherwise.\<close>

fun py_len :: "pyval \<Rightarrow> error + nat" where
  "py_len (PyStr s) = Inr (length s)"
| "py_len (PyList xs) = Inr (length xs)"
| "py_len (PyDict d) = Inr (length d)"
| "py_len PyNone = Inl TypeError"
| "py_len (PyBool b) = Inl TypeError"
| "py_len (PyInt i) = Inl TypeError"

subsection \<open>Sets of identifiers\<close>

text \<open>
  \<^verbatim>\<open>bad_records\<close> is a Python set. Adding a list or a dictionary raises
  \<^verbatim>\<open>TypeError\<close> (unhashable); membership is decided by \<^verbatim>\<open>==\<close>, under which
  \<^verbatim>\<open>True == 1\<close> and \<^verbatim>\<open>False == 0\<close>. The set is kept as the list of its elements in
  the order they were added.
\<close>

fun hashable :: "pyval \<Rightarrow> bool" where
  "hashable (PyList xs) = False"
| "hashable (PyDict d) = False"
| "hashable v = True"

fun py_eq :: "pyval \<Rightarrow> pyval \<Rightarrow> bool" where
  "py_eq (PyBool b) (PyInt i) = (i = (if b then 1 else 0))"
| "py_eq (PyInt i) (PyBool b) = (i = (if b then 1 else 0))"
| "py_eq v w = (v = w)"

definition set_contains :: "pyval list \<Rightarrow> pyval \<Rightarrow> bool" where
  "set_contains S v = list_ex (py_eq v) S"

definition set_add :: "pyval list \<Rightarrow> pyval \<Rightarrow> error + pyval list" where
  "set_add S v =
     (if hashable v then (if set_contains S v then Inr S else Inr (S @ [v]))
      else Inl TypeError)"

section \<open>Strings: \<^verbatim>\<open>isnumeric\<close>, \<^verbatim>\<open>split\<close> and \<^verbatim>\<open>repr\<close>\<close>

text \<open>
  \<^verbatim>\<open>str.isnumeric\<close> holds of a non-empty string whose characters all have a Unicode
  numeric value. Up to U+00FF these are the ten ASCII digits, the superscripts
  U+00B2, U+00B3, U+00B9 and the fractions U+00BC, U+00BD, U+00BE.
\<close>

definition ascii_digit :: "char \<Rightarrow> bool" where
  "ascii_digit c = (0x30 \<le> (of_char c :: nat) \<and> (of_char c :: nat) \<le> 0x39)"

definition isnumeric_char :: "char \<Rightarrow> bool" where
  "isnumeric_char c =
     (ascii_digit c \<or> (of_char c :: nat) \<in> set [0xB2, 0xB3, 0xB9, 0xBC, 0xBD, 0xBE])"

definition isnumeric :: "string \<Rightarrow> bool" where
  "isnumeric s = (s \<noteq> [] \<and> list_all isnumeric_char s)"

text \<open>\<^verbatim>\<open>s.split(c)\<close> for a one-character separator: one piece more than separators.\<close>

fun split_on :: "char \<Rightarrow> string \<Rightarrow> string list" where
  "split_on c [] = [[]]"
| "split_on c (x # xs) =
     (if x = c then [] # split_on c xs
      else (case split_on c xs of
              p # ps \<Rightarrow> (x # p) # ps
            | [] \<Rightarrow> [[x]]))"

text \<open>
  \<^verbatim>\<open>repr\<close> of a string: double quotes when the string has a single quote and no
  double quote, single quotes otherwise; the backslash and the chosen quote are
  escaped, tab, newline and carriage return are written \<^verbatim>\<open>\t\<close>, \<^verbatim>\<open>\n\<close>, \<^verbatim>\<open>\r\<close>,
  every other non-printable character (U+0000 to U+001F, U+007F to U+00A0, U+00AD)
  as \<^verbatim>\<open>\xhh\<close> in lower-case hexadecimal.
\<close>

definition squote :: char where "squote = CHR 0x27"
definition dquote :: char where "dquote = CHR 0x22"
definition backslash :: char where "backslash = CHR 0x5C"

definition hexdigit :: "nat \<Rightarrow> char" where
  "hexdigit n = ''0123456789abcdef'' ! n"

definition py_printable :: "char \<Rightarrow> bool" where
  "py_printable c =
     (0x20 \<le> (of_char c :: nat) \<and> (of_char c :: nat) \<noteq> 0xAD \<and>
      ((of_char c :: nat) < 0x7F \<or> 0xA0 < (of_char c :: nat)))"

definition repr_quote :: "string \<Rightarrow> char" where
  "repr_quote s = (if squote \<in> set s \<and> dquote \<notin> set s then dquote else squote)"

definition repr_char :: "char \<Rightarrow> char \<Rightarrow> string" where
  "repr_char q c =
     (if c = q \<or> c = backslash then [backslash, c]
      else if c = CHR 0x09 then [backslash, CHR ''t'']
      else if c = CHR 0x0A then [backslash, CHR ''n'']
      else if c = CHR 0x0D then [backslash, CHR ''r'']
      else if py_printable c then [c]
      else [backslash, CHR ''x'', hexdigit (of_char c div 16), hexdigit (of_char c mod 16)])"

definition repr_str :: "string \<Rightarrow> string" where
  "repr_str s = repr_quote s # concat (map (repr_char (repr_quote s)) s) @ [repr_quote s]"

text \<open>\<^verbatim>\<open>repr\<close> of an integer: decimal, no leading zeros, a minus sign when negative.\<close>

fun digits_of :: "nat \<Rightarrow> string" where
  "digits_of n =
     (if n < 10 then [hexdigit n] else digits_of (n div 10) @ [hexdigit (n mod 10)])"

definition repr_int :: "int \<Rightarrow> string" where
  "repr_int i = (if i < 0 then CHR ''-'' # digits_of (nat (- i)) else digits_of (nat i))"

text \<open>\<^verbatim>\<open>', '.join(xs)\<close>.\<close>

fun join_comma :: "string list \<Rightarrow> string" where
  "join_comma [] = []"
| "join_comma [x] = x"
| "join_comma (x # y # ys) = x @ '', '' @ join_comma (y # ys)"

text \<open>\<^verbatim>\<open>repr\<close> of a value; for a dictionary or a list this is also \<^verbatim>\<open>str\<close>.\<close>

fun py_repr :: "pyval \<Rightarrow> string" where
  "py_repr PyNone = ''None''"
| "py_repr (PyBool b) = (if b then ''True'' else ''False'')"
| "py_repr (PyInt i) = repr_int i"
| "py_repr (PyStr s) = repr_str s"
| "py_repr (PyList xs) = ''['' @ join_comma (map py_repr xs) @ '']''"
| "py_repr (PyDict d) =
     ''{'' @ join_comma (map (\<lambda>kv. repr_str (fst kv) @ '': '' @ py_repr (snd kv)) d) @ ''}''"

declare digits_of.simps [simp del]

declare py_repr.simps [simp del]

section \<open>The validator\<close>

text \<open>
  The two attributes of a \<^verbatim>\<open>DataValidator\<close>. Every method takes the object and returns
  it with its result, which is a value or the exception raised; the object is
  returned in both cases, as it outlives an exception.
\<close>

record validator =
  bad_records :: "pyval list"
  records_seen :: "(string \<times> pyval) list"

type_synonym 'a outcome = "(error + 'a) \<times> validator"

definition init :: validator where
  "init = \<lparr>bad_records = [], records_seen = []\<rparr>"

text \<open>Sequencing: an exception of the first call ends the method.\<close>

definition then_do :: "'a outcome \<Rightarrow> ('a \<Rightarrow> validator \<Rightarrow> 'b outcome) \<Rightarrow> 'b outcome" where
  "then_do m f = (case m of (Inl e, s) \<Rightarrow> (Inl e, s) | (Inr a, s) \<Rightarrow> f a s)"

text \<open>
  \<^verbatim>\<open>remove_id\<close>: the loop over \<^verbatim>\<open>record.keys()\<close> reads \<^verbatim>\<open>record[k]\<close> at each key,
  that is, it runs over the entries in insertion order.
\<close>

definition without_id :: "pydict \<Rightarrow> pydict" where
  "without_id record =
     foldl (\<lambda>d kv. if fst kv \<noteq> ''id'' then dict_set d (fst kv) (snd kv) else d) [] record"

definition remove_id :: "validator \<Rightarrow> pydict \<Rightarrow> pydict outcome" where
  "remove_id self record = (Inr (without_id record), self)"

definition have_seen :: "validator \<Rightarrow> pydict \<Rightarrow> bool outcome" where
  "have_seen self record =
     then_do (remove_id self record) (\<lambda>d s.
       let record_string = py_repr (PyDict d) in
       if dict_contains (records_seen s) record_string then (Inr True, s)
       else (case dict_get record ''id'' of
               None \<Rightarrow> (Inl KeyError, s)
             | Some i \<Rightarrow>
                 (Inr False, s\<lparr>records_seen := dict_set (records_seen s) record_string i\<rparr>)))"

definition is_null_missing_blank :: "validator \<Rightarrow> pydict \<Rightarrow> string \<Rightarrow> bool outcome" where
  "is_null_missing_blank self record key =
     (if \<not> dict_contains record key then (Inr True, self)
      else (case dict_get record key of
              None \<Rightarrow> (Inl KeyError, self)
            | Some PyNone \<Rightarrow> (Inr True, self)
            | Some v \<Rightarrow>
                (case py_len v of
                   Inl e \<Rightarrow> (Inl e, self)
                 | Inr n \<Rightarrow> if n = 0 then (Inr True, self) else (Inr False, self))))"

text \<open>
  \<^verbatim>\<open>valid_zip_code\<close> receives \<^verbatim>\<open>record['zip']\<close>; only a string has the methods it
  calls, any other value raises \<^verbatim>\<open>AttributeError\<close> at \<^verbatim>\<open>zip_code.isnumeric()\<close>.
\<close>

definition valid_zip_code :: "validator \<Rightarrow> pyval \<Rightarrow> bool outcome" where
  "valid_zip_code self zip_code =
     (case zip_code of
        PyStr z \<Rightarrow>
          if isnumeric z \<and> (length z = 5 \<or> length z = 9) then (Inr True, self)
          else if CHR ''-'' \<in> set z then
            (case split_on CHR ''-'' z of
               [a0, a1] \<Rightarrow>
                 if isnumeric a0 \<and> length a0 = 5 \<and> isnumeric a1 \<and> length a1 = 4
                 then (Inr True, self)
                 else (Inr False, self)
             | _ \<Rightarrow> (Inr False, self))
          else (Inr False, self)
      | _ \<Rightarrow> (Inl AttributeError, self))"

definition add_to_bad_records :: "validator \<Rightarrow> pydict \<Rightarrow> unit outcome" where
  "add_to_bad_records self record =
     (case dict_get record ''id'' of
        None \<Rightarrow> (Inl KeyError, self)
      | Some i \<Rightarrow>
          (case set_add (bad_records self) i of
             Inl e \<Rightarrow> (Inl e, self)
           | Inr S \<Rightarrow> (Inr (), self\<lparr>bad_records := S\<rparr>)))"

definition add_duplicate_to_bad_records :: "validator \<Rightarrow> pydict \<Rightarrow> unit outcome" where
  "add_duplicate_to_bad_records self record =
     then_do (remove_id self record) (\<lambda>d s.
       let record_string = py_repr (PyDict d) in
       if dict_contains (records_seen s) record_string then
         (case dict_get (records_seen s) record_string of
            None \<Rightarrow> (Inl KeyError, s)
          | Some i \<Rightarrow>
              (case set_add (bad_records s) i of
                 Inl e \<Rightarrow> (Inl e, s)
               | Inr S \<Rightarrow> (Inr (), s\<lparr>bad_records := S\<rparr>)))
       else (Inr (), s))"

definition record_is_valid :: "validator \<Rightarrow> pydict \<Rightarrow> bool outcome" where
  "record_is_valid self record =
     (if \<not> dict_contains record ''id'' then (Inl NoIDError, self)
      else
        then_do (is_null_missing_blank self record ''name'') (\<lambda>b1 s1.
          if b1 then (Inr False, s1)
          else
            then_do (is_null_missing_blank s1 record ''address'') (\<lambda>b2 s2.
              if b2 then (Inr False, s2)
              else
                then_do (is_null_missing_blank s2 record ''zip'') (\<lambda>b3 s3.
                  if b3 then (Inr False, s3)
                  else
                    (case dict_get record ''zip'' of
                       None \<Rightarrow> (Inl KeyError, s3)
                     | Some z \<Rightarrow>
                         then_do (valid_zip_code s3 z) (\<lambda>ok s4.
                           if \<not> ok then (Inr False, s4) else (Inr True, s4)))))))"

text \<open>The body of the loop of \<^verbatim>\<open>validate_file\<close>, for one decoded record \<open>d\<close>.\<close>

definition validate_record :: "validator \<Rightarrow> pydict \<Rightarrow> unit outcome" where
  "validate_record self d =
     then_do (have_seen self d) (\<lambda>seen s1.
       if seen then
         then_do (add_to_bad_records s1 d) (\<lambda>_ s2. add_duplicate_to_bad_records s2 d)
       else
         then_do (record_is_valid s1 d) (\<lambda>ok s2.
           if \<not> ok then add_to_bad_records s2 d else (Inr (), s2)))"

text \<open>
  \<^verbatim>\<open>validate_file\<close> on the list that \<^verbatim>\<open>json.load\<close> returned: the records in file
  order, the first exception ending the loop.
\<close>

fun validate_file :: "validator \<Rightarrow> pydict list \<Rightarrow> unit outcome" where
  "validate_file self [] = (Inr (), self)"
| "validate_file self (d # data) =
     then_do (validate_record self d) (\<lambda>_ s. validate_file s data)"

text \<open>The string \<^verbatim>\<open>have_seen\<close> uses as key: \<^verbatim>\<open>str(self.remove_id(record))\<close>.\<close>

definition fingerprint :: "pydict \<Rightarrow> string" where
  "fingerprint record = py_repr (PyDict (without_id record))"

text \<open>
  The state after a series of \<^verbatim>\<open>have_seen\<close> calls, whatever each of them returned
  or raised.
\<close>

fun have_seen_calls :: "validator \<Rightarrow> pydict list \<Rightarrow> validator" where
  "have_seen_calls self [] = self"
| "have_seen_calls self (r # rs) = have_seen_calls (snd (have_seen self r)) rs"

text \<open>The five records of \<^verbatim>\<open>test_duplicate_records\<close>.\<close>

definition test_data :: "pydict list" where
  "test_data =
     [[(''name'', PyStr ''0''), (''address'', PyStr ''1''), (''zip'', PyStr ''00000''),
       (''id'', PyStr ''7152'')],
      [(''name'', PyStr ''0''), (''address'', PyStr ''1''), (''zip'', PyStr ''00000''),
       (''id'', PyStr ''9913'')],
      [(''name'', PyStr ''2''), (''address'', PyStr ''3''), (''zip'', PyStr ''00004''),
       (''id'', PyStr ''2467'')],
      [(''name'', PyStr ''0''), (''address'', PyNone), (''zip'', PyStr ''00000''),
       (''id'', PyStr ''1192'')],
      [(''name'', PyStr ''0''), (''address'', PyNone), (''zip'', PyStr ''00000''),
       (''id'', PyStr ''9222'')]]"

text \<open>
  The cases the specification names for a field: absent, \<^verbatim>\<open>None\<close> or the empty
  string (blank); absent, \<^verbatim>\<open>None\<close> or any string (string-or-null-valued).
\<close>

definition text_field :: "pydict \<Rightarrow> string \<Rightarrow> bool" where
  "text_field r k =
     (case dict_get r k of
        None \<Rightarrow> True
      | Some PyNone \<Rightarrow> True
      | Some (PyStr s) \<Rightarrow> True
      | Some _ \<Rightarrow> False)"

definition blank_field :: "pydict \<Rightarrow> string \<Rightarrow> bool" where
  "blank_field r k =
     (dict_get r k = None \<or> dict_get r k = Some PyNone \<or> dict_get r k = Some (PyStr []))"

text \<open>
  The three accepted formats as the docstring of \<^verbatim>\<open>valid_zip_code\<close> lists them, with
  ASCII digits: 00000, 000000000 and 00000-0000; and the ASCII characters.
\<close>

definition zip_format :: "string \<Rightarrow> bool" where
  "zip_format z =
     (((length z = 5 \<or> length z = 9) \<and> list_all ascii_digit z) \<or>
      (length z = 10 \<and> list_all ascii_digit (take 5 z) \<and> z ! 5 = CHR ''-'' \<and>
       list_all ascii_digit (drop 6 z)))"

definition ascii :: "char \<Rightarrow> bool" where
  "ascii c = ((of_char c :: nat) < 128)"

section \<open>Reading a representation back\<close>

text \<open>
  Notions used to show that \<^verbatim>\<open>repr\<close> loses nothing: the two quote characters, the
  kind of value a first character announces, and what may follow a value.
\<close>

definition is_quote :: "char \<Rightarrow> bool" where
  "is_quote q = (q = squote \<or> q = dquote)"

fun tag :: "pyval \<Rightarrow> nat" where
  "tag PyNone = 0"
| "tag (PyBool b) = 1"
| "tag (PyInt i) = 2"
| "tag (PyStr s) = 3"
| "tag (PyList xs) = 4"
| "tag (PyDict d) = 5"

definition char_tag :: "char \<Rightarrow> nat" where
  "char_tag c =
     (if c = CHR ''N'' then 0
      else if c = CHR ''T'' \<or> c = CHR ''F'' then 1
      else if c = CHR ''-'' \<or> ascii_digit c then 2
      else if is_quote c then 3
      else if c = CHR ''['' then 4
      else if c = CHR ''{'' then 5
      else 6)"

text \<open>What may follow a value inside a list or a dictionary: nothing, a comma or a closing bracket.\<close>

definition follow :: "string \<Rightarrow> bool" where
  "follow x = (x = [] \<or> hd x = CHR '','' \<or> hd x = CHR '']'' \<or> hd x = CHR ''}'')"

text \<open>
  The specification's equality of records apart from \<^verbatim>\<open>id\<close>: under every key other
  than \<^verbatim>\<open>id\<close> that either record has, both hold the same value (or both none).
\<close>

definition same_fields :: "pydict \<Rightarrow> pydict \<Rightarrow> bool" where
  "same_fields r r' =
     list_all (\<lambda>k. dict_get r k = dict_get r' k)
       (filter (\<lambda>k. k \<noteq> ''id'') (map fst r @ map fst r'))"

section \<open>Evaluation\<close>

lemmas repr_defs =
  py_repr.simps repr_str_def repr_quote_def repr_char_def repr_int_def squote_def
  dquote_def backslash_def py_printable_def hexdigit_def

lemmas run_defs =
  validate_record_def have_seen_def then_do_def remove_id_def without_id_def repr_defs
  init_def dict_contains_def dict_get_def record_is_valid_def is_null_missing_blank_def
  valid_zip_code_def add_to_bad_records_def add_duplicate_to_bad_records_def
  set_add_def set_contains_def isnumeric_def isnumeric_char_def ascii_digit_def

section \<open>Dictionaries\<close>

lemma dict_contains_get: "dict_contains d k \<longleftrightarrow> dict_get d k \<noteq> None"
  by (simp add: dict_contains_def dict_get_def map_of_eq_None_iff)

lemma dict_get_set: "dict_get (dict_set d k v) k' = (if k' = k then Some v else dict_get d k')"
  by (induction d) (auto simp: dict_get_def)

lemma dict_contains_set:
  "dict_contains (dict_set d k v) k' \<longleftrightarrow> k' = k \<or> dict_contains d k'"
  by (simp add: dict_contains_get dict_get_set)

section \<open>What each method does to the validator\<close>

lemma have_seen_eq:
  "have_seen self r =
     (if dict_contains (records_seen self) (fingerprint r) then (Inr True, self)
      else (case dict_get r ''id'' of
              None \<Rightarrow> (Inl KeyError, self)
            | Some i \<Rightarrow>
                (Inr False,
                 self\<lparr>records_seen := dict_set (records_seen self) (fingerprint r) i\<rparr>)))"
  unfolding have_seen_def then_do_def remove_id_def fingerprint_def Let_def
  by simp

lemma is_null_missing_blank_state: "snd (is_null_missing_blank self r k) = self"
  by (simp add: is_null_missing_blank_def split: option.split pyval.split sum.split)

lemma valid_zip_code_state: "snd (valid_zip_code self z) = self"
  by (simp add: valid_zip_code_def split: pyval.split list.split)

lemma then_do_state:
  "snd m = s \<Longrightarrow> (\<And>a. snd (f a s) = s) \<Longrightarrow> snd (then_do m f) = s"
  by (cases m) (auto simp: then_do_def split: sum.split)

lemma record_is_valid_state: "snd (record_is_valid self r) = self"
  unfolding record_is_valid_def
  by (auto intro!: then_do_state simp: is_null_missing_blank_state valid_zip_code_state
      split: option.split)

lemma remove_id_state: "snd (remove_id self r) = self"
  by (simp add: remove_id_def)

lemma have_seen_bad_records: "bad_records (snd (have_seen self r)) = bad_records self"
  by (simp add: have_seen_eq split: option.split)

lemma have_seen_keeps:
  assumes "dict_get (records_seen self) fp = Some i"
  shows "dict_get (records_seen (snd (have_seen self r))) fp = Some i"
proof (cases "dict_contains (records_seen self) (fingerprint r)")
  case True
  then show ?thesis using assms by (simp add: have_seen_eq)
next
  case False
  with assms have "fp \<noteq> fingerprint r"
    by (auto simp: dict_contains_get)
  with assms False show ?thesis
    by (simp add: have_seen_eq dict_get_set split: option.split)
qed

lemma add_to_bad_records_seen:
  "records_seen (snd (add_to_bad_records self r)) = records_seen self"
  by (simp add: add_to_bad_records_def split: option.split sum.split)

lemma add_duplicate_to_bad_records_seen:
  "records_seen (snd (add_duplicate_to_bad_records self r)) = records_seen self"
  by (simp add: add_duplicate_to_bad_records_def then_do_def remove_id_def Let_def
      split: option.split sum.split)

lemma record_is_valid_eq: "record_is_valid self r = (fst (record_is_valid self r), self)"
  by (metis prod.collapse record_is_valid_state)

lemma validate_record_seen:
  "records_seen (snd (validate_record self r)) = records_seen (snd (have_seen self r))"
proof (cases "have_seen self r")
  case (Pair x s1)
  show ?thesis
  proof (cases x)
    case (Inl e)
    with Pair show ?thesis by (simp add: validate_record_def then_do_def)
  next
    case (Inr b)
    show ?thesis
    proof (cases b)
      case True
      with Pair Inr show ?thesis
        by (cases "add_to_bad_records s1 r")
          (auto simp: validate_record_def then_do_def add_duplicate_to_bad_records_seen
            split: sum.split dest: arg_cong [where f = "\<lambda>p. records_seen (snd p)"]
            simp: add_to_bad_records_seen)
    next
      case False
      with Pair Inr show ?thesis
        by (subst validate_record_def, simp add: then_do_def)
          (subst record_is_valid_eq, auto split: sum.split simp: add_to_bad_records_seen)
    qed
  qed
qed

lemma validate_record_keeps:
  "dict_get (records_seen self) fp = Some i \<Longrightarrow>
   dict_get (records_seen (snd (validate_record self r))) fp = Some i"
  by (simp add: validate_record_seen have_seen_keeps)

lemma validate_file_keeps:
  "dict_get (records_seen self) fp = Some i \<Longrightarrow>
   dict_get (records_seen (snd (validate_file self data))) fp = Some i"
proof (induction data arbitrary: self)
  case Nil
  then show ?case by simp
next
  case (Cons d data)
  show ?case
  proof (cases "validate_record self d")
    case (Pair x s1)
    with Cons.prems have s1: "dict_get (records_seen s1) fp = Some i"
      using validate_record_keeps [of self fp i d] by simp
    show ?thesis
    proof (cases x)
      case (Inl e)
      with Pair s1 show ?thesis by (simp add: then_do_def)
    next
      case (Inr u)
      with Pair show ?thesis using Cons.IH [OF s1] by (simp add: then_do_def)
    qed
  qed
qed

lemma have_seen_calls_keeps:
  "dict_get (records_seen self) fp = Some i \<Longrightarrow>
   dict_get (records_seen (have_seen_calls self rs)) fp = Some i"
  by (induction rs arbitrary: self) (simp_all add: have_seen_keeps)

text \<open>
  C10. \<^verbatim>\<open>is_null_missing_blank\<close>, \<^verbatim>\<open>valid_zip_code\<close> and \<^verbatim>\<open>record_is_valid\<close> return
  the validator as they received it, both \<^verbatim>\<open>records_seen\<close> and \<^verbatim>\<open>bad_records\<close>,
  whatever they return or raise; \<^verbatim>\<open>have_seen\<close> leaves \<^verbatim>\<open>bad_records\<close> as it was.
\<close>

theorem query_methods_frame:
  "snd (is_null_missing_blank self r k) = self \<and>
   snd (valid_zip_code self z) = self \<and>
   snd (record_is_valid self r) = self \<and>
   bad_records (snd (have_seen self r)) = bad_records self"
  by (simp add: is_null_missing_blank_state valid_zip_code_state record_is_valid_state
      have_seen_bad_records)

theorem query_methods_frame_witness:
  "snd (is_null_missing_blank init [(''name'', PyInt 3)] ''name'') = init \<and>
   snd (valid_zip_code init (PyStr ''00000'')) = init \<and>
   snd (record_is_valid init [(''id'', PyInt 1)]) = init \<and>
   bad_records (snd (have_seen init [(''id'', PyInt 1)])) = bad_records init"
  using query_methods_frame [of init "[(''name'', PyInt 3)]" "''name''" "PyStr ''00000''"]
    query_methods_frame [of init "[(''id'', PyInt 1)]" "''name''" "PyStr ''00000''"]
  by simp

text \<open>
  C7. A binding of \<^verbatim>\<open>records_seen\<close> stays as it is, the same identifier under the
  same key, through every method and through the whole loop of \<^verbatim>\<open>validate_file\<close>,
  also when a call ends in an exception; and \<^verbatim>\<open>have_seen\<close> on a record whose key is
  already there returns \<^verbatim>\<open>True\<close> and the validator unchanged.
\<close>

theorem records_seen_only_grows:
  assumes "dict_get (records_seen self) fp = Some i"
  shows "dict_get (records_seen (snd (have_seen self r))) fp = Some i \<and>
         dict_get (records_seen (snd (remove_id self r))) fp = Some i \<and>
         dict_get (records_seen (snd (is_null_missing_blank self r k))) fp = Some i \<and>
         dict_get (records_seen (snd (valid_zip_code self z))) fp = Some i \<and>
         dict_get (records_seen (snd (record_is_valid self r))) fp = Some i \<and>
         dict_get (records_seen (snd (add_to_bad_records self r))) fp = Some i \<and>
         dict_get (records_seen (snd (add_duplicate_to_bad_records self r))) fp = Some i \<and>
         dict_get (records_seen (snd (validate_record self r))) fp = Some i \<and>
         dict_get (records_seen (snd (validate_file self data))) fp = Some i \<and>
         (dict_contains (records_seen self) (fingerprint r) \<longrightarrow>
            have_seen self r = (Inr True, self))"
proof -
  have "dict_contains (records_seen self) (fingerprint r) \<longrightarrow>
      have_seen self r = (Inr True, self)"
    by (simp add: have_seen_eq)
  with assms show ?thesis
    by (simp add: have_seen_keeps remove_id_state is_null_missing_blank_state
        valid_zip_code_state record_is_valid_state add_to_bad_records_seen
        add_duplicate_to_bad_records_seen validate_record_keeps validate_file_keeps)
qed

theorem records_seen_only_grows_witness:
  "dict_get (records_seen \<lparr>bad_records = [], records_seen = [(''{}'', PyInt 1)]\<rparr>) ''{}''
     = Some (PyInt 1) \<and>
   dict_get (records_seen (snd (validate_file
       \<lparr>bad_records = [], records_seen = [(''{}'', PyInt 1)]\<rparr>
       [[(''id'', PyInt 2)], [(''a'', PyNone), (''id'', PyInt 3)]]))) ''{}'' = Some (PyInt 1) \<and>
   dict_contains (records_seen \<lparr>bad_records = [], records_seen = [(''{}'', PyInt 1)]\<rparr>)
     (fingerprint [(''id'', PyInt 2)]) \<and>
   have_seen \<lparr>bad_records = [], records_seen = [(''{}'', PyInt 1)]\<rparr> [(''id'', PyInt 2)] =
     (Inr True, \<lparr>bad_records = [], records_seen = [(''{}'', PyInt 1)]\<rparr>)"
proof -
  let ?s = "\<lparr>bad_records = [], records_seen = [(''{}'', PyInt 1)]\<rparr>"
  have h: "dict_get (records_seen ?s) ''{}'' = Some (PyInt 1)"
    by (simp add: dict_get_def)
  have c: "dict_contains (records_seen ?s) (fingerprint [(''id'', PyInt 2)])"
    by (simp add: dict_contains_def fingerprint_def without_id_def repr_defs)
  from records_seen_only_grows [OF h, of "[(''id'', PyInt 2)]" "''name''" PyNone
      "[[(''id'', PyInt 2)], [(''a'', PyNone), (''id'', PyInt 3)]]"] h c
  show ?thesis by simp
qed

text \<open>
  C6. A first \<^verbatim>\<open>have_seen\<close> of a record whose key is not yet in \<^verbatim>\<open>records_seen\<close>
  returns \<^verbatim>\<open>False\<close> and stores the record's identifier under that key; after it,
  and after any further \<^verbatim>\<open>have_seen\<close> calls, \<^verbatim>\<open>have_seen\<close> of any record with an equal
  key returns \<^verbatim>\<open>True\<close> and changes nothing, whatever that record's \<^verbatim>\<open>id\<close> is.
\<close>

theorem have_seen_stateful:
  assumes "\<not> dict_contains (records_seen self) (fingerprint r)"
    and "dict_get r ''id'' = Some i"
    and "fingerprint r' = fingerprint r"
  shows "have_seen self r =
           (Inr False, self\<lparr>records_seen := dict_set (records_seen self) (fingerprint r) i\<rparr>) \<and>
         dict_get (records_seen (snd (have_seen self r))) (fingerprint r) = Some i \<and>
         have_seen (have_seen_calls (snd (have_seen self r)) rs) r' =
           (Inr True, have_seen_calls (snd (have_seen self r)) rs)"
proof -
  have first: "have_seen self r =
      (Inr False, self\<lparr>records_seen := dict_set (records_seen self) (fingerprint r) i\<rparr>)"
    using assms(1,2) by (simp add: have_seen_eq)
  then have stored: "dict_get (records_seen (snd (have_seen self r))) (fingerprint r) = Some i"
    by (simp add: dict_get_set)
  then have "dict_get (records_seen (have_seen_calls (snd (have_seen self r)) rs))
      (fingerprint r') = Some i"
    using assms(3) by (simp add: have_seen_calls_keeps)
  then have "dict_contains (records_seen (have_seen_calls (snd (have_seen self r)) rs))
      (fingerprint r')"
    by (simp add: dict_contains_get)
  then have "have_seen (have_seen_calls (snd (have_seen self r)) rs) r' =
      (Inr True, have_seen_calls (snd (have_seen self r)) rs)"
    by (simp add: have_seen_eq)
  with first stored show ?thesis by simp
qed

theorem have_seen_stateful_witness:
  "\<not> dict_contains (records_seen init) (fingerprint [(''a'', PyStr ''0''), (''id'', PyStr ''3'')]) \<and>
   dict_get [(''a'', PyStr ''0''), (''id'', PyStr ''3'')] ''id'' = Some (PyStr ''3'') \<and>
   fingerprint [(''a'', PyStr ''0''), (''id'', PyStr ''4'')] =
     fingerprint [(''a'', PyStr ''0''), (''id'', PyStr ''3'')] \<and>
   have_seen init [(''a'', PyStr ''0''), (''id'', PyStr ''3'')] =
     (Inr False,
      init\<lparr>records_seen := dict_set (records_seen init)
        (fingerprint [(''a'', PyStr ''0''), (''id'', PyStr ''3'')]) (PyStr ''3'')\<rparr>) \<and>
   have_seen
     (have_seen_calls (snd (have_seen init [(''a'', PyStr ''0''), (''id'', PyStr ''3'')]))
        [[(''a'', PyInt 0), (''id'', PyStr ''7'')]])
     [(''a'', PyStr ''0''), (''id'', PyStr ''4'')] =
     (Inr True,
      have_seen_calls (snd (have_seen init [(''a'', PyStr ''0''), (''id'', PyStr ''3'')]))
        [[(''a'', PyInt 0), (''id'', PyStr ''7'')]])"
proof -
  let ?r = "[(''a'', PyStr ''0''), (''id'', PyStr ''3'')]"
  let ?r' = "[(''a'', PyStr ''0''), (''id'', PyStr ''4'')]"
  have h1: "\<not> dict_contains (records_seen init) (fingerprint ?r)"
    by (simp add: init_def dict_contains_def)
  have h2: "dict_get ?r ''id'' = Some (PyStr ''3'')"
    by (simp add: dict_get_def)
  have h3: "fingerprint ?r' = fingerprint ?r"
    by (simp add: fingerprint_def without_id_def)
  from have_seen_stateful [OF h1 h2 h3, of "[[(''a'', PyInt 0), (''id'', PyStr ''7'')]]"] h1 h2 h3
  show ?thesis by blast
qed

section \<open>Field validity\<close>

lemma is_null_missing_blank_text:
  "text_field r k \<Longrightarrow> is_null_missing_blank self r k = (Inr (blank_field r k), self)"
  by (auto simp: is_null_missing_blank_def text_field_def blank_field_def dict_contains_get
      split: option.splits pyval.splits)

lemma valid_zip_code_str: "\<exists>b. valid_zip_code self (PyStr z) = (Inr b, self)"
  by (auto simp: valid_zip_code_def split: list.split)

lemma record_is_valid_text:
  assumes "dict_contains r ''id''"
    and "text_field r ''name''" and "text_field r ''address''" and "text_field r ''zip''"
  shows "record_is_valid self r =
     (Inr (\<not> blank_field r ''name'' \<and> \<not> blank_field r ''address'' \<and> \<not> blank_field r ''zip'' \<and>
           (\<exists>z. dict_get r ''zip'' = Some (PyStr z) \<and>
                fst (valid_zip_code self (PyStr z)) = Inr True)), self)"
proof (cases "blank_field r ''zip''")
  case True
  with assms show ?thesis
    by (simp add: record_is_valid_def is_null_missing_blank_text then_do_def)
next
  case False
  with assms(4) obtain z where z: "dict_get r ''zip'' = Some (PyStr z)"
    by (auto simp: text_field_def blank_field_def split: option.splits pyval.splits)
  obtain b where b: "valid_zip_code self (PyStr z) = (Inr b, self)"
    using valid_zip_code_str by blast
  from assms False z b show ?thesis
    by (simp add: record_is_valid_def is_null_missing_blank_text then_do_def)
qed

text \<open>
  C8. For a record with an \<^verbatim>\<open>id\<close> whose \<^verbatim>\<open>name\<close>, \<^verbatim>\<open>address\<close> and \<^verbatim>\<open>zip\<close> are each
  absent, \<^verbatim>\<open>None\<close> or a string: \<^verbatim>\<open>is_null_missing_blank\<close> returns \<^verbatim>\<open>True\<close> exactly
  when the field is absent, \<^verbatim>\<open>None\<close> or the empty string, and \<^verbatim>\<open>record_is_valid\<close>
  returns \<^verbatim>\<open>True\<close> exactly when none of the three is blank and \<^verbatim>\<open>valid_zip_code\<close>
  accepts the zip string, \<^verbatim>\<open>False\<close> otherwise; neither raises.
\<close>

theorem record_is_valid_fields:
  assumes "dict_contains r ''id''"
    and "text_field r ''name''" and "text_field r ''address''" and "text_field r ''zip''"
    and "text_field r k"
  shows "is_null_missing_blank self r k = (Inr (blank_field r k), self) \<and>
         record_is_valid self r =
           (Inr (\<not> blank_field r ''name'' \<and> \<not> blank_field r ''address'' \<and>
                 \<not> blank_field r ''zip'' \<and>
                 (\<exists>z. dict_get r ''zip'' = Some (PyStr z) \<and>
                      fst (valid_zip_code self (PyStr z)) = Inr True)), self)"
  using assms by (simp add: is_null_missing_blank_text record_is_valid_text)

theorem record_is_valid_fields_witness:
  "dict_contains [(''name'', PyStr ''David Schlachter''), (''address'', PyNone),
                  (''zip'', PyStr ''00000''), (''id'', PyStr ''0'')] ''id'' \<and>
   text_field [(''name'', PyStr ''David Schlachter''), (''address'', PyNone),
               (''zip'', PyStr ''00000''), (''id'', PyStr ''0'')] ''name'' \<and>
   text_field [(''name'', PyStr ''David Schlachter''), (''address'', PyNone),
               (''zip'', PyStr ''00000''), (''id'', PyStr ''0'')] ''address'' \<and>
   text_field [(''name'', PyStr ''David Schlachter''), (''address'', PyNone),
               (''zip'', PyStr ''00000''), (''id'', PyStr ''0'')] ''zip'' \<and>
   is_null_missing_blank init [(''name'', PyStr ''David Schlachter''), (''address'', PyNone),
               (''zip'', PyStr ''00000''), (''id'', PyStr ''0'')] ''address'' = (Inr True, init) \<and>
   record_is_valid init [(''name'', PyStr ''David Schlachter''), (''address'', PyNone),
               (''zip'', PyStr ''00000''), (''id'', PyStr ''0'')] = (Inr False, init)"
proof -
  let ?r = "[(''name'', PyStr ''David Schlachter''), (''address'', PyNone),
             (''zip'', PyStr ''00000''), (''id'', PyStr ''0'')]"
  have h0: "dict_contains ?r ''id''"
    by (simp add: dict_contains_def)
  have h1: "text_field ?r ''name''" and h2: "text_field ?r ''address''"
    and h3: "text_field ?r ''zip''"
    by (simp_all add: text_field_def dict_get_def)
  have b: "blank_field ?r ''address''"
    by (simp add: blank_field_def dict_get_def)
  from record_is_valid_fields [OF h0 h1 h2 h3 h2, of init] h0 h1 h2 h3 b
  show ?thesis by simp
qed

section \<open>The identifier is only a payload\<close>

lemma without_id_fold_set:
  "foldl (\<lambda>d kv. if fst kv \<noteq> ''id'' then dict_set d (fst kv) (snd kv) else d) acc
     (dict_set r ''id'' v) =
   foldl (\<lambda>d kv. if fst kv \<noteq> ''id'' then dict_set d (fst kv) (snd kv) else d) acc r"
  by (induction r arbitrary: acc) auto

lemma without_id_set_id: "without_id (dict_set r ''id'' v) = without_id r"
  by (simp add: without_id_def without_id_fold_set)

lemma fingerprint_set_id: "fingerprint (dict_set r ''id'' v) = fingerprint r"
  by (simp add: fingerprint_def without_id_set_id)

lemma is_null_missing_blank_set_id:
  "k \<noteq> ''id'' \<Longrightarrow>
   is_null_missing_blank self (dict_set r ''id'' v) k = is_null_missing_blank self r k"
  by (simp add: is_null_missing_blank_def dict_contains_set dict_get_set)

lemma record_is_valid_set_id:
  "dict_contains r ''id'' \<Longrightarrow>
   record_is_valid self (dict_set r ''id'' v) = record_is_valid self r"
  by (simp add: record_is_valid_def is_null_missing_blank_set_id dict_contains_set dict_get_set
      cong: if_cong)

lemma have_seen_result:
  "dict_contains r ''id'' \<Longrightarrow>
   fst (have_seen self r) = Inr (dict_contains (records_seen self) (fingerprint r))"
  by (auto simp: have_seen_eq dict_contains_get split: option.split)

text \<open>
  C9. Replacing the value of the \<^verbatim>\<open>id\<close> of a record that has one changes neither the
  key \<^verbatim>\<open>str(remove_id(record))\<close>, nor what \<^verbatim>\<open>have_seen\<close> returns from any validator
  (it returns whether the key is in \<^verbatim>\<open>records_seen\<close>), nor the outcome of
  \<^verbatim>\<open>record_is_valid\<close>.
\<close>

theorem identifier_noninterference:
  assumes "dict_contains r ''id''"
  shows "fingerprint (dict_set r ''id'' v) = fingerprint r \<and>
         fst (have_seen self (dict_set r ''id'' v)) = fst (have_seen self r) \<and>
         fst (have_seen self r) = Inr (dict_contains (records_seen self) (fingerprint r)) \<and>
         record_is_valid self (dict_set r ''id'' v) = record_is_valid self r"
proof -
  have "dict_contains (dict_set r ''id'' v) ''id''"
    by (simp add: dict_contains_set)
  then have "fst (have_seen self (dict_set r ''id'' v)) =
      Inr (dict_contains (records_seen self) (fingerprint r))"
    by (simp add: have_seen_result fingerprint_set_id)
  with assms show ?thesis
    by (simp add: have_seen_result fingerprint_set_id record_is_valid_set_id)
qed

theorem identifier_noninterference_witness:
  "dict_contains [(''name'', PyStr ''0''), (''id'', PyStr ''7152''), (''zip'', PyInt 5)] ''id'' \<and>
   dict_set [(''name'', PyStr ''0''), (''id'', PyStr ''7152''), (''zip'', PyInt 5)] ''id'' (PyInt 9913)
     = [(''name'', PyStr ''0''), (''id'', PyInt 9913), (''zip'', PyInt 5)] \<and>
   fingerprint [(''name'', PyStr ''0''), (''id'', PyInt 9913), (''zip'', PyInt 5)] =
     fingerprint [(''name'', PyStr ''0''), (''id'', PyStr ''7152''), (''zip'', PyInt 5)] \<and>
   fst (have_seen init [(''name'', PyStr ''0''), (''id'', PyInt 9913), (''zip'', PyInt 5)]) =
     fst (have_seen init [(''name'', PyStr ''0''), (''id'', PyStr ''7152''), (''zip'', PyInt 5)]) \<and>
   record_is_valid init [(''name'', PyStr ''0''), (''id'', PyInt 9913), (''zip'', PyInt 5)] =
     record_is_valid init [(''name'', PyStr ''0''), (''id'', PyStr ''7152''), (''zip'', PyInt 5)]"
proof -
  let ?r = "[(''name'', PyStr ''0''), (''id'', PyStr ''7152''), (''zip'', PyInt 5)]"
  have h: "dict_contains ?r ''id''"
    by (simp add: dict_contains_def)
  have e: "dict_set ?r ''id'' (PyInt 9913) =
      [(''name'', PyStr ''0''), (''id'', PyInt 9913), (''zip'', PyInt 5)]"
    by simp
  from identifier_noninterference [OF h, of "PyInt 9913" init] h e
  show ?thesis by simp
qed

section \<open>Duplicates\<close>

lemma py_eq_refl: "py_eq v v"
  by (cases v) auto

lemma set_contains_append:
  "set_contains (S @ [v]) w \<longleftrightarrow> set_contains S w \<or> py_eq w v"
  by (auto simp: set_contains_def list_ex_iff)

lemma set_add_contains: "set_add S v = Inr S' \<Longrightarrow> set_contains S' v"
  by (auto simp: set_add_def set_contains_append py_eq_refl split: if_splits)

lemma set_add_mono: "set_add S v = Inr S' \<Longrightarrow> set_contains S w \<Longrightarrow> set_contains S' w"
  by (auto simp: set_add_def set_contains_append split: if_splits)

lemma set_add_hashable: "hashable v \<Longrightarrow> \<exists>S'. set_add S v = Inr S'"
  by (simp add: set_add_def)

lemma add_duplicate_to_bad_records_eq:
  "add_duplicate_to_bad_records self r =
     (case dict_get (records_seen self) (fingerprint r) of
        None \<Rightarrow> (Inr (), self)
      | Some i \<Rightarrow>
          (case set_add (bad_records self) i of
             Inl e \<Rightarrow> (Inl e, self)
           | Inr S \<Rightarrow> (Inr (), self\<lparr>bad_records := S\<rparr>)))"
  unfolding add_duplicate_to_bad_records_def then_do_def remove_id_def fingerprint_def Let_def
  by (auto simp: dict_contains_get split: option.split)

lemma then_do_preserve:
  assumes "P (snd m)" and "\<And>a s. P s \<Longrightarrow> P (snd (f a s))"
  shows "P (snd (then_do m f))"
  using assms by (cases m) (auto simp: then_do_def split: sum.split)

lemma add_to_bad_records_mono:
  "set_contains (bad_records self) w \<Longrightarrow>
   set_contains (bad_records (snd (add_to_bad_records self r))) w"
  by (auto simp: add_to_bad_records_def set_add_mono split: option.split sum.split)

lemma add_duplicate_to_bad_records_mono:
  "set_contains (bad_records self) w \<Longrightarrow>
   set_contains (bad_records (snd (add_duplicate_to_bad_records self r))) w"
  by (auto simp: add_duplicate_to_bad_records_eq set_add_mono split: option.split sum.split)

lemma validate_record_mono:
  assumes "set_contains (bad_records self) w"
  shows "set_contains (bad_records (snd (validate_record self r))) w"
proof -
  let ?P = "\<lambda>s. set_contains (bad_records s) w"
  have a: "?P (snd (then_do (add_to_bad_records s r)
      (\<lambda>_ s2. add_duplicate_to_bad_records s2 r)))" if "?P s" for s
    by (rule then_do_preserve [where P = ?P])
      (simp_all add: that add_to_bad_records_mono add_duplicate_to_bad_records_mono)
  have b: "?P (snd (then_do (record_is_valid s r)
      (\<lambda>ok s2. if \<not> ok then add_to_bad_records s2 r else (Inr (), s2))))" if "?P s" for s
    by (rule then_do_preserve [where P = ?P])
      (simp_all add: that record_is_valid_state add_to_bad_records_mono)
  show ?thesis
    unfolding validate_record_def
    by (rule then_do_preserve [where P = ?P]) (simp_all add: have_seen_bad_records assms a b)
qed

lemma validate_file_mono:
  "set_contains (bad_records self) w \<Longrightarrow>
   set_contains (bad_records (snd (validate_file self data))) w"
proof (induction data arbitrary: self)
  case Nil
  then show ?case by simp
next
  case (Cons d data)
  show ?case
    unfolding validate_file.simps
    by (intro then_do_preserve [where P = "\<lambda>s. set_contains (bad_records s) w"])
      (auto simp: Cons validate_record_mono)
qed

lemma validate_record_registered:
  assumes "dict_get (records_seen self) (fingerprint d) = Some j"
  shows "validate_record self d =
     (case dict_get d ''id'' of
        None \<Rightarrow> (Inl KeyError, self)
      | Some i \<Rightarrow>
          (case set_add (bad_records self) i of
             Inl e \<Rightarrow> (Inl e, self)
           | Inr B1 \<Rightarrow>
               (case set_add B1 j of
                  Inl e \<Rightarrow> (Inl e, self\<lparr>bad_records := B1\<rparr>)
                | Inr B2 \<Rightarrow> (Inr (), self\<lparr>bad_records := B2\<rparr>))))"
  using assms
  by (auto simp: validate_record_def have_seen_eq dict_contains_get then_do_def
      add_to_bad_records_def add_duplicate_to_bad_records_eq split: option.split sum.split)

lemma validate_record_duplicate:
  assumes "dict_get (records_seen self) (fingerprint d) = Some j"
    and "dict_get d ''id'' = Some i" and "hashable i" and "hashable j"
  shows "\<exists>B. validate_record self d = (Inr (), self\<lparr>bad_records := B\<rparr>) \<and>
             set_contains B i \<and> set_contains B j"
proof -
  obtain B1 where B1: "set_add (bad_records self) i = Inr B1"
    using set_add_hashable [OF assms(3)] by blast
  obtain B2 where B2: "set_add B1 j = Inr B2"
    using set_add_hashable [OF assms(4)] by blast
  have "validate_record self d = (Inr (), self\<lparr>bad_records := B2\<rparr>)"
    using assms(2) B1 B2 by (simp add: validate_record_registered [OF assms(1)])
  moreover have "set_contains B2 j"
    using B2 by (rule set_add_contains)
  moreover have "set_contains B2 i"
    using B2 set_add_contains [OF B1] by (rule set_add_mono)
  ultimately show ?thesis by blast
qed

lemma validate_record_flags:
  assumes "validate_record self d = (Inr u, s')"
    and "dict_get (records_seen self) (fingerprint d) = Some j"
  shows "\<exists>i. dict_get d ''id'' = Some i \<and> set_contains (bad_records s') i \<and>
             set_contains (bad_records s') j"
  using assms(1)
  by (auto simp: validate_record_registered [OF assms(2)] split: option.splits sum.splits
      intro: set_add_contains set_add_mono)

lemma validate_record_has_id:
  assumes "validate_record self d = (Inr u, s')"
  shows "\<exists>i. dict_get d ''id'' = Some i"
proof (cases "dict_get d ''id''")
  case None
  have "fst (validate_record self d) = Inl KeyError"
    using None
    by (simp add: validate_record_def have_seen_eq then_do_def add_to_bad_records_def)
  with assms show ?thesis by simp
next
  case (Some i)
  then show ?thesis by simp
qed

lemma validate_record_new:
  assumes "validate_record self d = (Inr u, s')"
    and "dict_get (records_seen self) (fingerprint d) = None"
    and "dict_get d ''id'' = Some i"
  shows "dict_get (records_seen s') (fingerprint d) = Some i"
proof -
  have "records_seen s' = records_seen (snd (have_seen self d))"
    using validate_record_seen [of self d] assms(1) by simp
  with assms(2,3) show ?thesis
    by (simp add: have_seen_eq dict_contains_get dict_get_set)
qed

lemma validate_file_Cons_normal:
  assumes "validate_file s (d # ds) = (Inr u, sf)"
  shows "\<exists>s1. validate_record s d = (Inr (), s1) \<and> validate_file s1 ds = (Inr u, sf)"
  using assms by (cases "validate_record s d") (auto simp: then_do_def split: sum.splits)

lemma validate_file_append_normal:
  assumes "validate_file s (xs @ ys) = (Inr u, sf)"
  shows "\<exists>s1. validate_file s xs = (Inr (), s1) \<and> validate_file s1 ys = (Inr u, sf)"
  using assms
proof (induction xs arbitrary: s)
  case Nil
  then show ?case by simp
next
  case (Cons x xs)
  from Cons.prems have "validate_file s (x # (xs @ ys)) = (Inr u, sf)"
    by simp
  from validate_file_Cons_normal [OF this]
  obtain s1 where x: "validate_record s x = (Inr (), s1)"
    and rest: "validate_file s1 (xs @ ys) = (Inr u, sf)"
    by blast
  from Cons.IH [OF rest] obtain s2 where xs: "validate_file s1 xs = (Inr (), s2)"
    and ys: "validate_file s2 ys = (Inr u, sf)"
    by blast
  from x xs have "validate_file s (x # xs) = (Inr (), s2)"
    by (simp add: then_do_def)
  with ys show ?case by blast
qed

lemma every_occurrence_flagged:
  assumes run: "validate_file self (pre @ d1 # mid @ d2 # post) = (Inr u, sf)"
    and fp: "fingerprint d1 = fingerprint d2"
  shows "\<exists>i1 i2. dict_get d1 ''id'' = Some i1 \<and> dict_get d2 ''id'' = Some i2 \<and>
           set_contains (bad_records sf) i1 \<and> set_contains (bad_records sf) i2"
proof -
  from validate_file_append_normal [OF run]
  obtain s1 where pre: "validate_file self pre = (Inr (), s1)"
    and r1: "validate_file s1 (d1 # mid @ d2 # post) = (Inr u, sf)"
    by blast
  from validate_file_Cons_normal [OF r1] obtain s2 where d1: "validate_record s1 d1 = (Inr (), s2)"
    and r2: "validate_file s2 (mid @ d2 # post) = (Inr u, sf)"
    by blast
  from validate_file_append_normal [OF r2] obtain s3 where mid: "validate_file s2 mid = (Inr (), s3)"
    and r3: "validate_file s3 (d2 # post) = (Inr u, sf)"
    by blast
  from validate_file_Cons_normal [OF r3] obtain s4 where d2: "validate_record s3 d2 = (Inr (), s4)"
    and post: "validate_file s4 post = (Inr u, sf)"
    by blast
  from validate_record_has_id [OF d1] obtain i1 where i1: "dict_get d1 ''id'' = Some i1"
    by auto
  obtain j where j2: "dict_get (records_seen s2) (fingerprint d1) = Some j"
    and ji: "dict_get (records_seen s1) (fingerprint d1) = None \<Longrightarrow> j = i1"
  proof (cases "dict_get (records_seen s1) (fingerprint d1)")
    case None
    from validate_record_new [OF d1 None i1] None that show ?thesis by simp
  next
    case (Some j0)
    from validate_record_keeps [OF Some, of d1] d1 Some that show ?thesis by simp
  qed
  have j3: "dict_get (records_seen s3) (fingerprint d2) = Some j"
    using validate_file_keeps [OF j2, of mid] mid fp by simp
  from validate_record_flags [OF d2 j3] obtain i2 where i2: "dict_get d2 ''id'' = Some i2"
    and b2: "set_contains (bad_records s4) i2" and bj: "set_contains (bad_records s4) j"
    by auto
  have to_end: "set_contains (bad_records sf) w" if "set_contains (bad_records s4) w" for w
    using validate_file_mono [OF that, of post] post by simp
  have "set_contains (bad_records s4) i1"
  proof (cases "dict_get (records_seen s1) (fingerprint d1)")
    case None
    with ji bj show ?thesis by simp
  next
    case (Some j0)
    from validate_record_flags [OF d1 Some] i1 have "set_contains (bad_records s2) i1"
      by auto
    then have "set_contains (bad_records s3) i1"
      using validate_file_mono [of s2 i1 mid] mid by simp
    then show ?thesis
      using validate_record_mono [of s3 i1 d2] d2 by simp
  qed
  with i1 i2 b2 to_end show ?thesis by simp
qed

text \<open>
  C3. A record whose key is already in \<^verbatim>\<open>records_seen\<close>, with a hashable \<^verbatim>\<open>id\<close> and
  a hashable stored identifier: the loop body ends normally with both the record's
  \<^verbatim>\<open>id\<close> and the stored identifier in \<^verbatim>\<open>bad_records\<close>, whatever its fields are
  (\<^verbatim>\<open>record_is_valid\<close> is not consulted). And in a run that ends normally, of any two
  records of the input with equal keys both identifiers are in \<^verbatim>\<open>bad_records\<close> at
  the end; so every occurrence of a key that occurs twice or more is flagged.
\<close>

theorem duplicates_flagged:
  "(dict_get (records_seen self) (fingerprint d) = Some j \<and> dict_get d ''id'' = Some i \<and>
    hashable i \<and> hashable j \<longrightarrow>
      (\<exists>B. validate_record self d = (Inr (), self\<lparr>bad_records := B\<rparr>) \<and>
           set_contains B i \<and> set_contains B j)) \<and>
   (validate_file self (pre @ d1 # mid @ d2 # post) = (Inr (), sf) \<and>
    fingerprint d1 = fingerprint d2 \<longrightarrow>
      (\<exists>i1 i2. dict_get d1 ''id'' = Some i1 \<and> dict_get d2 ''id'' = Some i2 \<and>
           set_contains (bad_records sf) i1 \<and> set_contains (bad_records sf) i2))"
  using validate_record_duplicate [of self d j i] every_occurrence_flagged [of self pre d1 mid d2 post "()" sf]
  by simp

theorem duplicates_flagged_witness:
  "dict_get (records_seen \<lparr>bad_records = [], records_seen = [(''{'a': 5}'', PyStr ''3'')]\<rparr>)
     (fingerprint [(''a'', PyInt 5), (''id'', PyStr ''4'')]) = Some (PyStr ''3'') \<and>
   dict_get [(''a'', PyInt 5), (''id'', PyStr ''4'')] ''id'' = Some (PyStr ''4'') \<and>
   hashable (PyStr ''4'') \<and> hashable (PyStr ''3'') \<and>
   (\<exists>B. validate_record \<lparr>bad_records = [], records_seen = [(''{'a': 5}'', PyStr ''3'')]\<rparr>
          [(''a'', PyInt 5), (''id'', PyStr ''4'')] =
          (Inr (), \<lparr>bad_records = [], records_seen = [(''{'a': 5}'', PyStr ''3'')]\<rparr>
                     \<lparr>bad_records := B\<rparr>) \<and>
        set_contains B (PyStr ''4'') \<and> set_contains B (PyStr ''3'')) \<and>
   validate_file init
     ([] @ [(''a'', PyInt 5), (''id'', PyStr ''3'')] # [[(''a'', PyInt 5), (''id'', PyStr ''4'')]] @
      [(''a'', PyInt 5), (''id'', PyStr ''5'')] # []) =
     (Inr (), \<lparr>bad_records = [PyStr ''3'', PyStr ''4'', PyStr ''5''],
               records_seen = [(''{'a': 5}'', PyStr ''3'')]\<rparr>) \<and>
   fingerprint [(''a'', PyInt 5), (''id'', PyStr ''3'')] =
     fingerprint [(''a'', PyInt 5), (''id'', PyStr ''5'')] \<and>
   (\<exists>i1 i2. dict_get [(''a'', PyInt 5), (''id'', PyStr ''3'')] ''id'' = Some i1 \<and>
        dict_get [(''a'', PyInt 5), (''id'', PyStr ''5'')] ''id'' = Some i2 \<and>
        set_contains (bad_records \<lparr>bad_records = [PyStr ''3'', PyStr ''4'', PyStr ''5''],
               records_seen = [(''{'a': 5}'', PyStr ''3'')]\<rparr>) i1 \<and>
        set_contains (bad_records \<lparr>bad_records = [PyStr ''3'', PyStr ''4'', PyStr ''5''],
               records_seen = [(''{'a': 5}'', PyStr ''3'')]\<rparr>) i2)"
proof -
  let ?s = "\<lparr>bad_records = [], records_seen = [(''{'a': 5}'', PyStr ''3'')]\<rparr>"
  let ?sf = "\<lparr>bad_records = [PyStr ''3'', PyStr ''4'', PyStr ''5''],
              records_seen = [(''{'a': 5}'', PyStr ''3'')]\<rparr>"
  let ?d1 = "[(''a'', PyInt 5), (''id'', PyStr ''3'')]"
  let ?d = "[(''a'', PyInt 5), (''id'', PyStr ''4'')]"
  let ?d2 = "[(''a'', PyInt 5), (''id'', PyStr ''5'')]"
  have fp: "fingerprint ?d = ''{'a': 5}''" "fingerprint ?d1 = ''{'a': 5}''"
    "fingerprint ?d2 = ''{'a': 5}''"
    by (simp_all add: fingerprint_def without_id_def repr_defs digits_of.simps)
  have h1: "dict_get (records_seen ?s) (fingerprint ?d) = Some (PyStr ''3'')"
    by (simp add: fp dict_get_def)
  have h2: "dict_get ?d ''id'' = Some (PyStr ''4'')"
    by (simp add: dict_get_def)
  have h3: "hashable (PyStr ''4'')" and h4: "hashable (PyStr ''3'')"
    by simp_all
  have h5: "validate_file init ([] @ ?d1 # [?d] @ ?d2 # []) = (Inr (), ?sf)"
    by (simp add: run_defs digits_of.simps)
  have h6: "fingerprint ?d1 = fingerprint ?d2"
    by (simp add: fp)
  note t1 = duplicates_flagged [where self = ?s and d = ?d and j = "PyStr ''3''"
      and i = "PyStr ''4''"]
  note t2 = duplicates_flagged [where self = init and pre = "[]" and ?d1.0 = ?d1
      and mid = "[?d]" and ?d2.0 = ?d2 and post = "[]" and sf = ?sf]
  have c1: "\<exists>B. validate_record ?s ?d = (Inr (), ?s\<lparr>bad_records := B\<rparr>) \<and>
      set_contains B (PyStr ''4'') \<and> set_contains B (PyStr ''3'')"
    by (rule mp [OF conjunct1 [OF t1]]) (intro conjI h1 h2 h3 h4)
  have c2: "\<exists>i1 i2. dict_get ?d1 ''id'' = Some i1 \<and> dict_get ?d2 ''id'' = Some i2 \<and>
      set_contains (bad_records ?sf) i1 \<and> set_contains (bad_records ?sf) i2"
    by (rule mp [OF conjunct2 [OF t2]]) (intro conjI h5 h6)
  show ?thesis
    by (intro conjI h1 h2 h3 h4 h5 h6 c1 c2)
qed

section \<open>The representation is injective\<close>

subsection \<open>Strings\<close>

lemma hexdigit_inj: "a < 16 \<Longrightarrow> b < 16 \<Longrightarrow> hexdigit a = hexdigit b \<Longrightarrow> a = b"
proof -
  have d: "distinct ''0123456789abcdef''" by simp
  have l: "length ''0123456789abcdef'' = 16" by simp
  show "a < 16 \<Longrightarrow> b < 16 \<Longrightarrow> hexdigit a = hexdigit b \<Longrightarrow> a = b"
    unfolding hexdigit_def using d l by (metis nth_eq_iff_index_eq)
qed

lemma hex_pair_inj:
  assumes "hexdigit (of_char c div 16) = hexdigit (of_char c' div 16)"
    and "hexdigit (of_char c mod 16) = hexdigit (of_char c' mod 16)"
  shows "c = c'"
proof -
  have lt: "(of_char c :: nat) < 256" "(of_char c' :: nat) < 256"
    by simp_all
  have "(of_char c :: nat) div 16 < 16"
    using lt(1) by arith
  moreover have "(of_char c' :: nat) div 16 < 16"
    using lt(2) by arith
  ultimately have d: "(of_char c :: nat) div 16 = of_char c' div 16"
    using assms(1) by (rule hexdigit_inj)
  have "(of_char c :: nat) mod 16 = of_char c' mod 16"
    using assms(2) by (intro hexdigit_inj) simp_all
  with d have "(of_char c :: nat) = of_char c'"
    by (metis div_mult_mod_eq)
  then show ?thesis by simp
qed

lemma hexdigit_not_special:
  "n < 16 \<Longrightarrow> hexdigit n \<noteq> backslash \<and> hexdigit n \<noteq> squote \<and> hexdigit n \<noteq> dquote"
proof -
  assume "n < 16"
  then have "hexdigit n \<in> set ''0123456789abcdef''"
    unfolding hexdigit_def by (intro nth_mem) simp
  then show ?thesis
    by (auto simp: backslash_def squote_def dquote_def)
qed

lemma repr_quote_is_quote: "is_quote (repr_quote s)"
  by (simp add: repr_quote_def is_quote_def)

lemma repr_char_hd: "is_quote q \<Longrightarrow> repr_char q c \<noteq> [] \<and> hd (repr_char q c) \<noteq> q"
  by (auto simp: repr_char_def is_quote_def squote_def dquote_def backslash_def)

lemma repr_char_forms:
  "is_quote q \<Longrightarrow>
   (repr_char q c = [c] \<and> c \<noteq> backslash \<and> c \<noteq> q) \<or>
   (repr_char q c = [backslash, c] \<and> (c = backslash \<or> c = q)) \<or>
   (repr_char q c = [backslash, CHR ''t''] \<and> c = CHR 0x09) \<or>
   (repr_char q c = [backslash, CHR ''n''] \<and> c = CHR 0x0A) \<or>
   (repr_char q c = [backslash, CHR ''r''] \<and> c = CHR 0x0D) \<or>
   (repr_char q c = [backslash, CHR ''x'', hexdigit (of_char c div 16), hexdigit (of_char c mod 16)])"
  by (auto simp: repr_char_def)

lemma repr_char_inj:
  assumes q: "is_quote q" and eq: "repr_char q c @ x = repr_char q c' @ x'"
  shows "c = c' \<and> x = x'"
  using repr_char_forms [OF q, of c] repr_char_forms [OF q, of c'] eq q
  by (elim disjE conjE)
    (auto simp: is_quote_def squote_def dquote_def backslash_def dest: hex_pair_inj)


lemma repr_body_inj:
  assumes q: "is_quote q"
  shows "concat (map (repr_char q) s) @ q # x = concat (map (repr_char q) s') @ q # x' \<Longrightarrow>
         s = s' \<and> x = x'"
proof (induction s arbitrary: s')
  case Nil
  show ?case
  proof (cases s')
    case Nil
    with Nil.prems show ?thesis by simp
  next
    case (Cons c' cs')
    with Nil.prems have "hd (repr_char q c' @ concat (map (repr_char q) cs') @ q # x') = q"
      by (metis append.assoc append_Nil concat.simps(1,2) list.map(1,2) list.sel(1))
    with repr_char_hd [OF q, of c'] show ?thesis by simp
  qed
next
  case (Cons c cs)
  show ?case
  proof (cases s')
    case Nil
    with Cons.prems have "hd (repr_char q c @ concat (map (repr_char q) cs) @ q # x) = q"
      by simp
    with repr_char_hd [OF q, of c] show ?thesis by simp
  next
    case (Cons c' cs')
    with Cons.prems have "repr_char q c @ (concat (map (repr_char q) cs) @ q # x) =
        repr_char q c' @ (concat (map (repr_char q) cs') @ q # x')"
      by simp
    from repr_char_inj [OF q this] Cons.IH [of cs'] Cons show ?thesis by simp
  qed
qed

lemma repr_str_inj:
  assumes "repr_str s @ x = repr_str s' @ x'"
  shows "s = s' \<and> x = x'"
proof -
  from assms have qq: "repr_quote s = repr_quote s'"
    by (simp add: repr_str_def)
  with assms have "concat (map (repr_char (repr_quote s)) s) @ repr_quote s # x =
      concat (map (repr_char (repr_quote s)) s') @ repr_quote s # x'"
    by (simp add: repr_str_def)
  then show ?thesis
    by (rule repr_body_inj [OF repr_quote_is_quote])
qed

lemma repr_str_hd: "repr_str s \<noteq> [] \<and> is_quote (hd (repr_str s))"
  by (simp add: repr_str_def repr_quote_is_quote)

subsection \<open>Integers\<close>

lemma hexdigit_decimal: "n < 10 \<Longrightarrow> ascii_digit (hexdigit n)"
proof -
  assume "n < 10"
  then have "n \<in> {0, 1, 2, 3, 4, 5, 6, 7, 8, 9}" by auto
  then show ?thesis
    by (auto simp: hexdigit_def ascii_digit_def)
qed

lemma digits_of_digits: "digits_of n \<noteq> [] \<and> list_all ascii_digit (digits_of n)"
proof (induction n rule: digits_of.induct)
  case (1 n)
  show ?case
  proof (cases "n < 10")
    case True
    then show ?thesis by (simp add: digits_of.simps [of n] hexdigit_decimal)
  next
    case False
    with "1" show ?thesis
      by (simp add: digits_of.simps [of n] hexdigit_decimal)
  qed
qed

lemma digits_of_inj: "digits_of n = digits_of m \<Longrightarrow> n = m"
proof (induction n arbitrary: m rule: digits_of.induct)
  case (1 n)
  show ?case
  proof (cases "n < 10")
    case n: True
    show ?thesis
    proof (cases "m < 10")
      case True
      with n "1.prems" show ?thesis
        by (simp add: digits_of.simps [of n] digits_of.simps [of m] hexdigit_inj)
    next
      case False
      with n "1.prems" digits_of_digits [of "m div 10"] show ?thesis
        by (simp add: digits_of.simps [of n] digits_of.simps [of m])
    qed
  next
    case n: False
    show ?thesis
    proof (cases "m < 10")
      case True
      with n "1.prems" digits_of_digits [of "n div 10"] show ?thesis
        by (simp add: digits_of.simps [of n] digits_of.simps [of m])
    next
      case False
      with n "1.prems" have d: "digits_of (n div 10) = digits_of (m div 10)"
        and h: "hexdigit (n mod 10) = hexdigit (m mod 10)"
        by (simp_all add: digits_of.simps [of n] digits_of.simps [of m])
      from "1.IH" [OF n d] have "n div 10 = m div 10" .
      moreover from h have "n mod 10 = m mod 10"
        by (intro hexdigit_inj) simp_all
      ultimately show ?thesis
        by (metis div_mult_mod_eq)
    qed
  qed
qed

lemma follow_not_digit: "follow x \<Longrightarrow> x = [] \<or> \<not> ascii_digit (hd x)"
  by (auto simp: follow_def ascii_digit_def)

lemma digits_split:
  assumes "list_all ascii_digit ds" and "list_all ascii_digit es"
    and "x = [] \<or> \<not> ascii_digit (hd x)" and "y = [] \<or> \<not> ascii_digit (hd y)"
    and "ds @ x = es @ y"
  shows "ds = es \<and> x = y"
proof -
  have "takeWhile ascii_digit (ds @ x) = ds"
    using assms(1,3) by (cases x) (auto simp: list_all_iff)
  moreover have "takeWhile ascii_digit (es @ y) = es"
    using assms(2,4) by (cases y) (auto simp: list_all_iff)
  ultimately have "ds = es"
    using assms(5) by simp
  with assms(5) show ?thesis by simp
qed

lemma repr_int_inj:
  assumes "follow x" and "follow y" and "repr_int i @ x = repr_int j @ y"
  shows "i = j \<and> x = y"
proof -
  have dig: "list_all ascii_digit (digits_of n)" "digits_of n \<noteq> []" for n
    using digits_of_digits [of n] by simp_all
  have nominus: "hd (digits_of n) \<noteq> CHR ''-''" for n
    using dig [of n] by (cases "digits_of n") (auto simp: ascii_digit_def)
  have split: "digits_of n @ x = digits_of m @ y \<Longrightarrow> n = m \<and> x = y" for n m
    using digits_split [OF dig(1) dig(1) follow_not_digit [OF assms(1)]
        follow_not_digit [OF assms(2)]] digits_of_inj
    by blast
  show ?thesis
  proof (cases "i < 0")
    case i: True
    show ?thesis
    proof (cases "j < 0")
      case True
      with i assms(3) split [of "nat (- i)" "nat (- j)"] show ?thesis
        by (auto simp: repr_int_def)
    next
      case False
      with i assms(3) nominus [of "nat j"] dig(2) [of "nat j"] show ?thesis
        by (cases "digits_of (nat j)") (auto simp: repr_int_def)
    qed
  next
    case i: False
    show ?thesis
    proof (cases "j < 0")
      case True
      with i assms(3) nominus [of "nat i"] dig(2) [of "nat i"] show ?thesis
        by (cases "digits_of (nat i)") (auto simp: repr_int_def)
    next
      case False
      with i assms(3) split [of "nat i" "nat j"] show ?thesis
        by (auto simp: repr_int_def)
    qed
  qed
qed


subsection \<open>Values\<close>

lemma char_tag_digit: "ascii_digit c \<Longrightarrow> char_tag c = 2"
  by (auto simp: char_tag_def ascii_digit_def)

lemma char_tag_quote: "is_quote c \<Longrightarrow> char_tag c = 3"
  by (auto simp: char_tag_def is_quote_def squote_def dquote_def ascii_digit_def)

lemma hd_repr_int: "repr_int i \<noteq> [] \<and> char_tag (hd (repr_int i)) = 2"
proof (cases "i < 0")
  case True
  then show ?thesis by (simp add: repr_int_def char_tag_def)
next
  case False
  with digits_of_digits [of "nat i"] show ?thesis
    by (cases "digits_of (nat i)") (auto simp: repr_int_def char_tag_digit)
qed

lemma hd_py_repr: "py_repr v \<noteq> [] \<and> char_tag (hd (py_repr v)) = tag v"
proof (cases v)
  case (PyInt i)
  with hd_repr_int [of i] show ?thesis by (simp add: py_repr.simps)
next
  case (PyStr s)
  with repr_str_hd [of s] show ?thesis by (simp add: py_repr.simps char_tag_quote)
qed (auto simp: py_repr.simps char_tag_def is_quote_def squote_def dquote_def ascii_digit_def)

lemma py_repr_tag:
  assumes "py_repr v @ x = py_repr v' @ x'"
  shows "tag v = tag v'"
proof -
  from assms have "hd (py_repr v @ x) = hd (py_repr v' @ x')" by simp
  with hd_py_repr [of v] hd_py_repr [of v'] have "hd (py_repr v) = hd (py_repr v')"
    by simp
  with hd_py_repr [of v] hd_py_repr [of v'] show ?thesis by metis
qed

lemma join_comma_Cons:
  "join_comma (a # as) @ y = a @ (if as = [] then y else '', '' @ join_comma as @ y)"
  by (cases as) simp_all

lemma join_comma_inj:
  fixes f :: "'a \<Rightarrow> string"
  assumes hd: "\<And>a. f a \<noteq> [] \<and> hd (f a) \<noteq> c"
    and c: "c = CHR '']'' \<or> c = CHR ''}''"
  shows "(\<And>a a' t t'. a \<in> set xs \<Longrightarrow> follow t \<Longrightarrow> follow t' \<Longrightarrow> f a @ t = f a' @ t' \<Longrightarrow>
            a = a' \<and> t = t') \<Longrightarrow>
         join_comma (map f xs) @ c # x = join_comma (map f xs') @ c # x' \<Longrightarrow>
         xs = xs' \<and> x = x'"
proof (induction xs arbitrary: xs')
  case Nil
  show ?case
  proof (cases xs')
    case Nil
    with Nil.prems(2) show ?thesis by simp
  next
    case (Cons a' as')
    with Nil.prems(2) have "c # x = f a' @ (if as' = [] then c # x'
        else '', '' @ join_comma (map f as') @ c # x')"
      by (simp only: list.map join_comma_Cons join_comma.simps append_Nil map_is_Nil_conv)
    with hd [of a'] show ?thesis
      by (cases "f a'") auto
  qed
next
  case (Cons a as)
  let ?T = "if as = [] then c # x else '', '' @ join_comma (map f as) @ c # x"
  have fT: "follow ?T"
    using c by (auto simp: follow_def)
  show ?case
  proof (cases xs')
    case Nil
    with Cons.prems(2) have "f a @ ?T = c # x'"
      by (simp only: list.map join_comma_Cons join_comma.simps append_Nil map_is_Nil_conv)
    with hd [of a] show ?thesis
      by (cases "f a") auto
  next
    case (Cons a' as')
    let ?T' = "if as' = [] then c # x' else '', '' @ join_comma (map f as') @ c # x'"
    have fT': "follow ?T'"
      using c by (auto simp: follow_def)
    from Cons Cons.prems(2) have "f a @ ?T = f a' @ ?T'"
      by (simp only: list.map join_comma_Cons map_is_Nil_conv)
    from Cons.prems(1) [OF _ fT fT' this] have a: "a = a'" and T: "?T = ?T'"
      by simp_all
    have "as = as' \<and> x = x'"
    proof (cases "as = []")
      case True
      with T c show ?thesis
        by (cases "as' = []") auto
    next
      case False
      with T c have ne: "as' \<noteq> []"
        by (cases "as' = []") auto
      with False T have eq: "join_comma (map f as) @ c # x = join_comma (map f as') @ c # x'"
        by simp
      show ?thesis
      proof (rule Cons.IH [of as'])
        fix b b' t t'
        assume b: "b \<in> set as" and t: "follow t" "follow t'" "f b @ t = f b' @ t'"
        from b have "b \<in> set (a # as)" by simp
        then show "b = b' \<and> t = t'" using t by (rule Cons.prems(1))
      next
        show "join_comma (map f as) @ c # x = join_comma (map f as') @ c # x'"
          by (rule eq)
      qed
    qed
    with a Cons show ?thesis by simp
  qed
qed


lemma py_repr_inj_follow:
  "follow x \<Longrightarrow> follow x' \<Longrightarrow> py_repr v @ x = py_repr v' @ x' \<Longrightarrow> v = v' \<and> x = x'"
proof (induction v arbitrary: v' x x')
  case PyNone
  from py_repr_tag [OF PyNone.prems(3)] have "v' = PyNone"
    by (cases v') simp_all
  with PyNone.prems(3) show ?case by (simp add: py_repr.simps)
next
  case (PyBool b)
  from py_repr_tag [OF PyBool.prems(3)] obtain b' where "v' = PyBool b'"
    by (cases v') simp_all
  with PyBool.prems(3) show ?case
    by (cases b; cases b') (simp_all add: py_repr.simps)
next
  case (PyInt i)
  from py_repr_tag [OF PyInt.prems(3)] obtain i' where v': "v' = PyInt i'"
    by (cases v') simp_all
  with PyInt.prems(3) have "repr_int i @ x = repr_int i' @ x'"
    by (simp add: py_repr.simps)
  from repr_int_inj [OF PyInt.prems(1,2) this] v' show ?case by simp
next
  case (PyStr s)
  from py_repr_tag [OF PyStr.prems(3)] obtain s' where v': "v' = PyStr s'"
    by (cases v') simp_all
  with PyStr.prems(3) have "repr_str s @ x = repr_str s' @ x'"
    by (simp add: py_repr.simps)
  from repr_str_inj [OF this] v' show ?case by simp
next
  case (PyList xs)
  from py_repr_tag [OF PyList.prems(3)] obtain xs' where v': "v' = PyList xs'"
    by (cases v') simp_all
  with PyList.prems(3)
  have eq: "join_comma (map py_repr xs) @ CHR '']'' # x = join_comma (map py_repr xs') @ CHR '']'' # x'"
    by (simp add: py_repr.simps)
  have hd: "py_repr a \<noteq> [] \<and> hd (py_repr a) \<noteq> CHR '']''" for a
  proof -
    have "tag a < 6" by (cases a) simp_all
    moreover have "char_tag CHR '']'' = 6"
      by (simp add: char_tag_def is_quote_def squote_def dquote_def ascii_digit_def)
    ultimately show ?thesis using hd_py_repr [of a] by auto
  qed
  have "xs = xs' \<and> x = x'"
  proof (rule join_comma_inj [where f = py_repr and c = "CHR '']''"])
    show "py_repr a \<noteq> [] \<and> hd (py_repr a) \<noteq> CHR '']''" for a by (rule hd)
  next
    show "CHR '']'' = CHR '']'' \<or> CHR '']'' = CHR ''}''" by simp
  next
    fix a a' t t'
    assume "a \<in> set xs" "follow t" "follow t'" "py_repr a @ t = py_repr a' @ t'"
    then show "a = a' \<and> t = t'" by (rule PyList.IH)
  next
    show "join_comma (map py_repr xs) @ CHR '']'' # x =
        join_comma (map py_repr xs') @ CHR '']'' # x'"
      by (rule eq)
  qed
  with v' show ?case by simp
next
  case (PyDict d)
  let ?f = "\<lambda>kv. repr_str (fst kv) @ '': '' @ py_repr (snd kv)"
  from py_repr_tag [OF PyDict.prems(3)] obtain d' where v': "v' = PyDict d'"
    by (cases v') simp_all
  with PyDict.prems(3)
  have eq: "join_comma (map ?f d) @ CHR ''}'' # x = join_comma (map ?f d') @ CHR ''}'' # x'"
    by (simp add: py_repr.simps)
  have "d = d' \<and> x = x'"
  proof (rule join_comma_inj [where f = ?f and c = "CHR ''}''"])
    fix kv :: "string \<times> pyval"
    from repr_str_hd [of "fst kv"] show "?f kv \<noteq> [] \<and> hd (?f kv) \<noteq> CHR ''}''"
      by (cases "repr_str (fst kv)") (auto simp: is_quote_def squote_def dquote_def)
  next
    show "CHR ''}'' = CHR '']'' \<or> CHR ''}'' = CHR ''}''" by simp
  next
    fix kv kv' :: "string \<times> pyval" and t t'
    assume kv: "kv \<in> set d" and t: "follow t" "follow t'" and e: "?f kv @ t = ?f kv' @ t'"
    from e have "repr_str (fst kv) @ ('': '' @ py_repr (snd kv) @ t) =
        repr_str (fst kv') @ ('': '' @ py_repr (snd kv') @ t')"
      by simp
    from repr_str_inj [OF this] have k: "fst kv = fst kv'"
      and r: "py_repr (snd kv) @ t = py_repr (snd kv') @ t'"
      by simp_all
    have "snd kv \<in> Basic_BNFs.snds kv"
      by (cases kv) simp
    from PyDict.IH [OF kv this t r] k show "kv = kv' \<and> t = t'"
      by (simp add: prod_eq_iff)
  next
    show "join_comma (map ?f d) @ CHR ''}'' # x = join_comma (map ?f d') @ CHR ''}'' # x'"
      by (rule eq)
  qed
  with v' show ?case by simp
qed

lemma py_repr_inj: "py_repr v = py_repr v' \<longleftrightarrow> v = v'"
  using py_repr_inj_follow [of "[]" "[]" v v'] by (auto simp: follow_def)

lemma fingerprint_eq_iff: "fingerprint r = fingerprint r' \<longleftrightarrow> without_id r = without_id r'"
  by (simp add: fingerprint_def py_repr_inj)

section \<open>Fingerprints\<close>

lemma dict_set_fresh: "k \<notin> fst ` set d \<Longrightarrow> dict_set d k v = d @ [(k, v)]"
  by (induction d) auto

lemma without_id_fold_distinct:
  "distinct (map fst r) \<Longrightarrow> fst ` set acc \<inter> fst ` set r = {} \<Longrightarrow>
   foldl (\<lambda>d kv. if fst kv \<noteq> ''id'' then dict_set d (fst kv) (snd kv) else d) acc r =
   acc @ filter (\<lambda>kv. fst kv \<noteq> ''id'') r"
proof (induction r arbitrary: acc)
  case Nil
  then show ?case by simp
next
  case (Cons kv r)
  show ?case
  proof (cases "fst kv = ''id''")
    case True
    with Cons.prems have "fst ` set acc \<inter> fst ` set r = {}" by auto
    with Cons.IH [of acc] Cons.prems True show ?thesis by simp
  next
    case False
    from Cons.prems have fresh: "fst kv \<notin> fst ` set acc" by auto
    then have set: "dict_set acc (fst kv) (snd kv) = acc @ [kv]"
      by (simp add: dict_set_fresh)
    from Cons.prems have "fst ` set (acc @ [kv]) \<inter> fst ` set r = {}" by auto
    with Cons.IH [of "acc @ [kv]"] Cons.prems False set show ?thesis by simp
  qed
qed

lemma without_id_distinct:
  "distinct (map fst r) \<Longrightarrow> without_id r = filter (\<lambda>kv. fst kv \<noteq> ''id'') r"
  using without_id_fold_distinct [of r "[]"] by (simp add: without_id_def)

text \<open>
  What the key \<^verbatim>\<open>str(remove_id(record))\<close> distinguishes. For two dictionaries (keys
  pairwise distinct, as \<^verbatim>\<open>json.load\<close> builds them) the keys are equal exactly when
  the entries other than \<^verbatim>\<open>id\<close> are the same sequence: the same field names in the
  same insertion order, each with the same value of the same type. So \<^verbatim>\<open>0\<close> and
  \<^verbatim>\<open>'0'\<close>, or \<^verbatim>\<open>None\<close> and \<^verbatim>\<open>'None'\<close>, under one field give different keys, the
  value and the place of \<^verbatim>\<open>id\<close> do not matter, and the order of the other fields
  does.
\<close>

lemma fingerprint_equal_iff:
  assumes "distinct (map fst r)" and "distinct (map fst r')"
  shows "fingerprint r = fingerprint r' \<longleftrightarrow>
         filter (\<lambda>kv. fst kv \<noteq> ''id'') r = filter (\<lambda>kv. fst kv \<noteq> ''id'') r'"
  using assms by (simp add: fingerprint_eq_iff without_id_distinct)

lemma fingerprint_equal_iff_examples:
  "distinct (map fst [(''a'', PyInt 0), (''b'', PyNone), (''id'', PyStr ''7'')]) \<and>
   distinct (map fst [(''id'', PyStr ''8''), (''a'', PyInt 0), (''b'', PyNone)]) \<and>
   distinct (map fst [(''a'', PyStr ''0''), (''b'', PyNone), (''id'', PyStr ''7'')]) \<and>
   distinct (map fst [(''a'', PyInt 0), (''b'', PyStr ''None''), (''id'', PyStr ''7'')]) \<and>
   fingerprint [(''a'', PyInt 0), (''b'', PyNone), (''id'', PyStr ''7'')] =
     fingerprint [(''id'', PyStr ''8''), (''a'', PyInt 0), (''b'', PyNone)] \<and>
   fingerprint [(''a'', PyInt 0), (''b'', PyNone), (''id'', PyStr ''7'')] \<noteq>
     fingerprint [(''a'', PyStr ''0''), (''b'', PyNone), (''id'', PyStr ''7'')] \<and>
   fingerprint [(''a'', PyInt 0), (''b'', PyNone), (''id'', PyStr ''7'')] \<noteq>
     fingerprint [(''a'', PyInt 0), (''b'', PyStr ''None''), (''id'', PyStr ''7'')]"
proof -
  let ?r = "[(''a'', PyInt 0), (''b'', PyNone), (''id'', PyStr ''7'')]"
  let ?r1 = "[(''id'', PyStr ''8''), (''a'', PyInt 0), (''b'', PyNone)]"
  let ?r2 = "[(''a'', PyStr ''0''), (''b'', PyNone), (''id'', PyStr ''7'')]"
  let ?r3 = "[(''a'', PyInt 0), (''b'', PyStr ''None''), (''id'', PyStr ''7'')]"
  have d: "distinct (map fst ?r)" and d1: "distinct (map fst ?r1)"
    and d2: "distinct (map fst ?r2)" and d3: "distinct (map fst ?r3)"
    by simp_all
  have e1: "fingerprint ?r = fingerprint ?r1"
    using fingerprint_equal_iff [OF d d1] by simp
  have e2: "fingerprint ?r \<noteq> fingerprint ?r2"
    using fingerprint_equal_iff [OF d d2] by simp
  have e3: "fingerprint ?r \<noteq> fingerprint ?r3"
    using fingerprint_equal_iff [OF d d3] by simp
  show ?thesis
    by (intro conjI d d1 d2 d3 e1 e2 e3)
qed

text \<open>
  C1. Two records with the same fields and the same values, \<^verbatim>\<open>name\<close> and \<^verbatim>\<open>address\<close>
  written in the other order in the second: \<^verbatim>\<open>str\<close> of a dictionary follows the
  insertion order, so the two keys differ, \<^verbatim>\<open>have_seen\<close> returns \<^verbatim>\<open>False\<close> for the
  second record too, and the loop of \<^verbatim>\<open>validate_file\<close> ends with no record marked,
  although each is a duplicate of the other.
\<close>

theorem duplicate_missed_on_key_order:
  "same_fields
     [(''name'', PyStr ''0''), (''address'', PyStr ''1''), (''zip'', PyStr ''00000''),
      (''id'', PyStr ''7152'')]
     [(''address'', PyStr ''1''), (''name'', PyStr ''0''), (''zip'', PyStr ''00000''),
      (''id'', PyStr ''9913'')] \<and>
   fingerprint [(''name'', PyStr ''0''), (''address'', PyStr ''1''), (''zip'', PyStr ''00000''),
      (''id'', PyStr ''7152'')] = ''{'name': '0', 'address': '1', 'zip': '00000'}'' \<and>
   fingerprint [(''address'', PyStr ''1''), (''name'', PyStr ''0''), (''zip'', PyStr ''00000''),
      (''id'', PyStr ''9913'')] = ''{'address': '1', 'name': '0', 'zip': '00000'}'' \<and>
   fingerprint [(''name'', PyStr ''0''), (''address'', PyStr ''1''), (''zip'', PyStr ''00000''),
      (''id'', PyStr ''7152'')] \<noteq>
     fingerprint [(''address'', PyStr ''1''), (''name'', PyStr ''0''), (''zip'', PyStr ''00000''),
      (''id'', PyStr ''9913'')] \<and>
   fst (have_seen
         (snd (have_seen init
            [(''name'', PyStr ''0''), (''address'', PyStr ''1''), (''zip'', PyStr ''00000''),
             (''id'', PyStr ''7152'')]))
         [(''address'', PyStr ''1''), (''name'', PyStr ''0''), (''zip'', PyStr ''00000''),
          (''id'', PyStr ''9913'')]) = Inr False \<and>
   fst (validate_file init
         [[(''name'', PyStr ''0''), (''address'', PyStr ''1''), (''zip'', PyStr ''00000''),
           (''id'', PyStr ''7152'')],
          [(''address'', PyStr ''1''), (''name'', PyStr ''0''), (''zip'', PyStr ''00000''),
           (''id'', PyStr ''9913'')]]) = Inr () \<and>
   bad_records (snd (validate_file init
         [[(''name'', PyStr ''0''), (''address'', PyStr ''1''), (''zip'', PyStr ''00000''),
           (''id'', PyStr ''7152'')],
          [(''address'', PyStr ''1''), (''name'', PyStr ''0''), (''zip'', PyStr ''00000''),
           (''id'', PyStr ''9913'')]])) = []"
  by (simp add: same_fields_def run_defs fingerprint_def)

section \<open>The end-to-end test\<close>

lemma test_data_outcome: "fst (validate_file init test_data) = Inr ()"
  by (simp add: test_data_def run_defs)

lemma test_data_bad_records:
  "bad_records (snd (validate_file init test_data)) =
     [PyStr ''9913'', PyStr ''7152'', PyStr ''1192'', PyStr ''9222'']"
  by (simp add: test_data_def run_defs)

text \<open>
  C2. On the five records of \<^verbatim>\<open>test_duplicate_records\<close> (identifiers 7152, 9913,
  2467, 1192, 9222; the first two alike, the third unique and valid, the last two
  alike with a null address) the loop of \<^verbatim>\<open>validate_file\<close> ends normally, the set
  of bad records is exactly 7152, 9913, 1192, 9222, and 2467 is not in it.
\<close>

theorem validate_file_test_data:
  "fst (validate_file init test_data) = Inr () \<and>
   set (bad_records (snd (validate_file init test_data))) =
     {PyStr ''7152'', PyStr ''9913'', PyStr ''1192'', PyStr ''9222''} \<and>
   \<not> set_contains (bad_records (snd (validate_file init test_data))) (PyStr ''2467'')"
  by (simp add: test_data_outcome test_data_bad_records set_contains_def insert_commute)

section \<open>Records without an identifier\<close>

text \<open>
  C4. A file whose only record has no \<^verbatim>\<open>id\<close>: the loop of \<^verbatim>\<open>validate_file\<close> ends
  with the plain \<^verbatim>\<open>KeyError\<close> that \<^verbatim>\<open>have_seen\<close> raises at \<^verbatim>\<open>record['id']\<close>, before
  \<^verbatim>\<open>record_is_valid\<close> and its \<^verbatim>\<open>NoIDError\<close> are reached; called on its own,
  \<^verbatim>\<open>record_is_valid\<close> raises \<^verbatim>\<open>NoIDError\<close> on the same record.
\<close>

theorem validate_file_no_id:
  "validate_file init [[(''a'', PyStr ''0'')]] = (Inl KeyError, init) \<and>
   record_is_valid init [(''a'', PyStr ''0'')] = (Inl NoIDError, init)"
  by (simp add: run_defs)

text \<open>
  In every state of the validator, the loop body on a record without \<^verbatim>\<open>id\<close> ends with
  \<^verbatim>\<open>KeyError\<close> and leaves the validator as it was: \<^verbatim>\<open>have_seen\<close> (or, for a key
  already seen, \<^verbatim>\<open>add_to_bad_records\<close>) reads \<^verbatim>\<open>record['id']\<close> before
  \<^verbatim>\<open>record_is_valid\<close> can raise \<^verbatim>\<open>NoIDError\<close>.
\<close>

theorem validate_record_without_id:
  assumes "\<not> dict_contains d ''id''"
  shows "validate_record self d = (Inl KeyError, self)"
proof -
  from assms have "dict_get d ''id'' = None"
    by (simp add: dict_contains_get)
  then show ?thesis
    by (simp add: validate_record_def have_seen_eq then_do_def add_to_bad_records_def)
qed


theorem validate_record_without_id_witness:
  "\<not> dict_contains [(''a'', PyStr ''0'')] ''id'' \<and>
   validate_record init [(''a'', PyStr ''0'')] = (Inl KeyError, init)"
proof -
  have h: "\<not> dict_contains [(''a'', PyStr ''0'')] ''id''"
    by (simp add: dict_contains_def)
  from validate_record_without_id [OF h, of init] h show ?thesis by simp
qed

section \<open>ZIP codes\<close>

text \<open>
  C5. \<^verbatim>\<open>valid_zip_code\<close> on five times U+00B2 (superscript two), on U+00BD (one
  half) five times, a hyphen and four times U+00B9, and on the eight strings of
  \<^verbatim>\<open>test_zip_code\<close>: the first two are accepted although they hold no ASCII digit.
\<close>

theorem valid_zip_code_superscripts:
  "fst (valid_zip_code init (PyStr [CHR 0xB2, CHR 0xB2, CHR 0xB2, CHR 0xB2, CHR 0xB2])) = Inr True \<and>
   fst (valid_zip_code init (PyStr [CHR 0xBD, CHR 0xBD, CHR 0xBD, CHR 0xBD, CHR 0xBD, CHR ''-'',
          CHR 0xB9, CHR 0xB9, CHR 0xB9, CHR 0xB9])) = Inr True \<and>
   map (\<lambda>z. fst (valid_zip_code init (PyStr z)))
     [''00000'', ''00000-0000'', ''000000000'', [], ''0a000'', ''00'',
      ''0000000000000000'', ''qwertyuio''] =
     [Inr True, Inr True, Inr True, Inr False, Inr False, Inr False, Inr False, Inr False]"
  by (simp add: run_defs)

lemma split_on_nonempty: "split_on c z \<noteq> []"
  by (induction z) (auto split: list.split)

lemma split_on_no_sep: "c \<notin> set a \<Longrightarrow> split_on c a = [a]"
  by (induction a) auto

lemma split_on_append: "c \<notin> set a \<Longrightarrow> split_on c (a @ c # b) = a # split_on c b"
  by (induction a) auto

lemma split_on_two:
  "split_on c z = [a0, a1] \<longleftrightarrow> z = a0 @ c # a1 \<and> c \<notin> set a0 \<and> c \<notin> set a1"
proof (induction z arbitrary: a0)
  case Nil
  then show ?case by auto
next
  case (Cons x z)
  show ?case
  proof (cases "x = c")
    case True
    have "split_on c z = [a1] \<longleftrightarrow> z = a1 \<and> c \<notin> set a1"
    proof
      assume s: "split_on c z = [a1]"
      have "c \<notin> set z"
      proof
        assume "c \<in> set z"
        then obtain u v where z: "z = u @ c # v" and "c \<notin> set u"
          by (meson split_list_first)
        then have "split_on c z = u # split_on c v"
          by (simp add: split_on_append)
        with s split_on_nonempty [of c v] show False by simp
      qed
      with s show "z = a1 \<and> c \<notin> set a1"
        by (simp add: split_on_no_sep)
    next
      assume "z = a1 \<and> c \<notin> set a1"
      then show "split_on c z = [a1]" by (simp add: split_on_no_sep)
    qed
    with True show ?thesis
      by (cases a0) auto
  next
    case False
    show ?thesis
    proof (cases a0)
      case Nil
      with False split_on_nonempty [of c z] show ?thesis
        by (auto split: list.split)
    next
      case (Cons y ys)
      with False Cons.IH [of ys] split_on_nonempty [of c z] show ?thesis
        by (auto split: list.split)
    qed
  qed
qed

lemma isnumeric_ascii: "list_all ascii z \<Longrightarrow> isnumeric z \<longleftrightarrow> z \<noteq> [] \<and> list_all ascii_digit z"
  by (induction z) (auto simp: isnumeric_def isnumeric_char_def ascii_def)

lemma dash_not_digit: "\<not> ascii_digit CHR ''-''"
  by (simp add: ascii_digit_def)

lemma digits_no_dash: "list_all ascii_digit a \<Longrightarrow> CHR ''-'' \<notin> set a"
  using dash_not_digit by (auto simp: list_all_iff)

lemma plus4_format:
  assumes "list_all ascii z"
  shows "(\<exists>a0 a1. split_on CHR ''-'' z = [a0, a1] \<and> isnumeric a0 \<and> length a0 = 5 \<and>
            isnumeric a1 \<and> length a1 = 4) \<longleftrightarrow>
         (length z = 10 \<and> list_all ascii_digit (take 5 z) \<and> z ! 5 = CHR ''-'' \<and>
          list_all ascii_digit (drop 6 z))"
proof
  assume "\<exists>a0 a1. split_on CHR ''-'' z = [a0, a1] \<and> isnumeric a0 \<and> length a0 = 5 \<and>
      isnumeric a1 \<and> length a1 = 4"
  then obtain a0 a1 where s: "split_on CHR ''-'' z = [a0, a1]"
    and n: "isnumeric a0" "isnumeric a1" and l: "length a0 = 5" "length a1 = 4"
    by blast
  from s have z: "z = a0 @ CHR ''-'' # a1"
    by (simp add: split_on_two)
  with assms have "list_all ascii a0" "list_all ascii a1"
    by simp_all
  with n have "list_all ascii_digit a0" "list_all ascii_digit a1"
    by (simp_all add: isnumeric_ascii)
  with z l show "length z = 10 \<and> list_all ascii_digit (take 5 z) \<and> z ! 5 = CHR ''-'' \<and>
      list_all ascii_digit (drop 6 z)"
    by (simp add: nth_append)
next
  assume r: "length z = 10 \<and> list_all ascii_digit (take 5 z) \<and> z ! 5 = CHR ''-'' \<and>
      list_all ascii_digit (drop 6 z)"
  let ?a0 = "take 5 z" and ?a1 = "drop 6 z"
  from r have z: "z = ?a0 @ CHR ''-'' # ?a1"
    using id_take_nth_drop [of 5 z] by simp
  from r have nd: "CHR ''-'' \<notin> set ?a0" "CHR ''-'' \<notin> set ?a1"
    by (simp_all add: digits_no_dash)
  have "split_on CHR ''-'' (?a0 @ CHR ''-'' # ?a1) = [?a0, ?a1]"
    using nd by (simp add: split_on_two)
  with z have s: "split_on CHR ''-'' z = [?a0, ?a1]"
    by simp
  from assms have "list_all ascii ?a0" "list_all ascii ?a1"
    by (auto simp: list_all_iff dest: in_set_takeD in_set_dropD)
  with r have "isnumeric ?a0" "isnumeric ?a1" "length ?a0 = 5" "length ?a1 = 4"
    by (auto simp: isnumeric_ascii)
  with s show "\<exists>a0 a1. split_on CHR ''-'' z = [a0, a1] \<and> isnumeric a0 \<and> length a0 = 5 \<and>
      isnumeric a1 \<and> length a1 = 4"
    by blast
qed

lemma valid_zip_code_cases:
  "valid_zip_code self (PyStr z) =
     (Inr ((isnumeric z \<and> (length z = 5 \<or> length z = 9)) \<or>
           (CHR ''-'' \<in> set z \<and>
            (\<exists>a0 a1. split_on CHR ''-'' z = [a0, a1] \<and> isnumeric a0 \<and> length a0 = 5 \<and>
               isnumeric a1 \<and> length a1 = 4))), self)"
  by (auto simp: valid_zip_code_def split: list.split)

text \<open>
  On a string of ASCII characters \<^verbatim>\<open>valid_zip_code\<close> returns \<^verbatim>\<open>True\<close> exactly for the
  three formats: five digits, nine digits, or five digits, a hyphen and four digits.
\<close>

theorem valid_zip_code_ascii:
  assumes "list_all ascii z"
  shows "valid_zip_code self (PyStr z) = (Inr (zip_format z), self)"
proof -
  have dash: "CHR ''-'' \<in> set z"
    if "length z = 10 \<and> list_all ascii_digit (take 5 z) \<and> z ! 5 = CHR ''-'' \<and>
      list_all ascii_digit (drop 6 z)"
  proof -
    from that have "5 < length z" by simp
    then have "z ! 5 \<in> set z" by (rule nth_mem)
    with that show ?thesis by simp
  qed
  have num: "isnumeric z \<and> (length z = 5 \<or> length z = 9) \<longleftrightarrow>
      (length z = 5 \<or> length z = 9) \<and> list_all ascii_digit z"
    using assms by (auto simp: isnumeric_ascii)
  show ?thesis
    unfolding valid_zip_code_cases zip_format_def num plus4_format [OF assms]
    using dash by auto
qed

theorem valid_zip_code_ascii_witness:
  "list_all ascii ''12345-6789'' \<and>
   valid_zip_code init (PyStr ''12345-6789'') = (Inr True, init)"
proof -
  have h: "list_all ascii ''12345-6789''"
    by (simp add: ascii_def)
  have f: "zip_format ''12345-6789''"
    by (simp add: zip_format_def ascii_digit_def)
  from valid_zip_code_ascii [OF h, of init] h f show ?thesis by simp
qed

end
